theory Spec2Isabelle
  imports Main
begin

section \<open>Errors\<close>

text \<open>
  The exceptions a run of the scripts can end with. \<open>ValueError\<close> is what
  \<^verbatim>\<open>datetime.date(...)\<close>, \<^verbatim>\<open>date.fromordinal\<close> and \<^verbatim>\<open>calendar.monthrange\<close> raise on
  arguments outside the calendar, \<open>OverflowError\<close> what the first two raise on an
  integer that does not fit a C \<^verbatim>\<open>int\<close>; \<open>KeyError k\<close> is \<^verbatim>\<open>era5[k]\<close> on a missing key
  (it carries the key) and \<open>IndexError\<close> is an index past the end of a table entry.
  These two are the \<^verbatim>\<open>LookupError\<close> exceptions. \<open>ClientError\<close> stands for whatever
  \<^verbatim>\<open>cdsapi.Client()\<close> or \<^verbatim>\<open>c.retrieve\<close> raises; the scripts catch nothing.
\<close>

datatype error = ValueError | OverflowError | KeyError string | IndexError | ClientError string

fun is_LookupError :: "error \<Rightarrow> bool" where
  "is_LookupError (KeyError k) = True"
| "is_LookupError IndexError = True"
| "is_LookupError e = False"

section \<open>The library calendar: \<^verbatim>\<open>calendar\<close> and \<^verbatim>\<open>datetime\<close>\<close>

text \<open>
  Python integers are unbounded: \<open>int\<close>. \<^verbatim>\<open>//\<close> and \<^verbatim>\<open>%\<close> round towards minus
  infinity, as \<open>div\<close> and \<open>mod\<close> on \<open>int\<close> do. The library functions are written
  after CPython 3.8 (the version the scripts name), where \<^verbatim>\<open>datetime\<close> is the C module.
\<close>

record date =
  year :: int
  month :: int
  day :: int

definition MINYEAR :: int where "MINYEAR = 1"
definition MAXYEAR :: int where "MAXYEAR = 9999"

text \<open>\<^verbatim>\<open>calendar.isleap\<close> and \<^verbatim>\<open>datetime._is_leap\<close> (the same expression).\<close>

definition isleap :: "int \<Rightarrow> bool" where
  "isleap y \<longleftrightarrow> y mod 4 = 0 \<and> (y mod 100 \<noteq> 0 \<or> y mod 400 = 0)"

definition mdays :: "int list" where
  "mdays = [0, 31, 28, 31, 30, 31, 30, 31, 31, 30, 31, 30, 31]"

text \<open>
  \<^verbatim>\<open>calendar.monthrange(year, month)[1]\<close>: the number of days of the month. The call
  raises \<^verbatim>\<open>IllegalMonthError\<close> (a \<^verbatim>\<open>ValueError\<close>) for a month outside 1..12 and takes
  any year. The weekday component \<^verbatim>\<open>[0]\<close> is never read by the scripts.
\<close>

definition monthrange :: "int \<Rightarrow> int \<Rightarrow> error + int" where
  "monthrange y m =
     (if \<not> (1 \<le> m \<and> m \<le> 12) then Inl ValueError
      else Inr (mdays ! nat m + (if m = 2 \<and> isleap y then 1 else 0)))"

definition DAYS_IN_MONTH :: "int list" where
  "DAYS_IN_MONTH = [-1, 31, 28, 31, 30, 31, 30, 31, 31, 30, 31, 30, 31]"

definition DAYS_BEFORE_MONTH :: "int list" where
  "DAYS_BEFORE_MONTH = [-1, 0, 31, 59, 90, 120, 151, 181, 212, 243, 273, 304, 334]"

text \<open>\<^verbatim>\<open>datetime._days_in_month\<close>, called with a month in 1..12 only.\<close>

definition days_in_month :: "int \<Rightarrow> int \<Rightarrow> int" where
  "days_in_month y m = (if m = 2 \<and> isleap y then 29 else DAYS_IN_MONTH ! nat m)"

definition fits_C_int :: "int \<Rightarrow> bool" where
  "fits_C_int i \<longleftrightarrow> - (2 ^ 31) \<le> i \<and> i \<le> 2 ^ 31 - 1"

text \<open>
  \<^verbatim>\<open>datetime.date(year, month, day)\<close>; \<^verbatim>\<open>datetime.datetime(year, month, day)\<close> checks
  the same three fields the same way, and the scripts read nothing but them.
\<close>

definition date_new :: "int \<Rightarrow> int \<Rightarrow> int \<Rightarrow> error + date" where
  "date_new y m d =
     (if \<not> (fits_C_int y \<and> fits_C_int m \<and> fits_C_int d) then Inl OverflowError
      else if \<not> (MINYEAR \<le> y \<and> y \<le> MAXYEAR) then Inl ValueError
      else if \<not> (1 \<le> m \<and> m \<le> 12) then Inl ValueError
      else if \<not> (1 \<le> d \<and> d \<le> days_in_month y m) then Inl ValueError
      else Inr \<lparr>year = y, month = m, day = d\<rparr>)"

text \<open>The dates a \<^verbatim>\<open>datetime.date\<close> object can hold.\<close>

definition valid_date :: "date \<Rightarrow> bool" where
  "valid_date D \<longleftrightarrow>
     MINYEAR \<le> year D \<and> year D \<le> MAXYEAR \<and> 1 \<le> month D \<and> month D \<le> 12 \<and>
     1 \<le> day D \<and> day D \<le> days_in_month (year D) (month D)"

text \<open>\<^verbatim>\<open>date.toordinal\<close>: 1 January of year 1 is day 1.\<close>

definition days_before_year :: "int \<Rightarrow> int" where
  "days_before_year y = (let y1 = y - 1 in y1 * 365 + y1 div 4 - y1 div 100 + y1 div 400)"

definition days_before_month :: "int \<Rightarrow> int \<Rightarrow> int" where
  "days_before_month y m = DAYS_BEFORE_MONTH ! nat m + (if m > 2 \<and> isleap y then 1 else 0)"

definition ymd2ord :: "int \<Rightarrow> int \<Rightarrow> int \<Rightarrow> int" where
  "ymd2ord y m d = days_before_year y + days_before_month y m + d"

definition toordinal :: "date \<Rightarrow> int" where
  "toordinal D = ymd2ord (year D) (month D) (day D)"

definition DI400Y :: int where "DI400Y = 146097"
definition DI100Y :: int where "DI100Y = 36524"
definition DI4Y :: int where "DI4Y = 1461"
definition MAXORDINAL :: int where "MAXORDINAL = 3652059"

text \<open>
  \<^verbatim>\<open>_ord2ymd\<close> (\<^verbatim>\<open>ord_to_ymd\<close> in the C module): the year by 400-, 100-, 4- and 1-year
  cycles, then the month by an estimate that is corrected when it is one too large.
  The second half is \<open>month_day\<close>, from the day of the year counted from 0.
\<close>

definition month_day :: "bool \<Rightarrow> int \<Rightarrow> int \<times> int" where
  "month_day leapyear n =
     (let m = (n + 50) div 32;
          preceding = DAYS_BEFORE_MONTH ! nat m + (if m > 2 \<and> leapyear then 1 else 0)
      in if preceding > n
         then let m' = m - 1;
                  preceding' = preceding -
                    (DAYS_IN_MONTH ! nat m' + (if m' = 2 \<and> leapyear then 1 else 0))
              in (m', n - preceding' + 1)
         else (m, n - preceding + 1))"

definition ord2ymd :: "int \<Rightarrow> int \<times> int \<times> int" where
  "ord2ymd ordinal =
     (let n = ordinal - 1;
          n400 = n div DI400Y; na = n mod DI400Y;
          n100 = na div DI100Y; nb = na mod DI100Y;
          n4 = nb div DI4Y; nc = nb mod DI4Y;
          n1 = nc div 365; nd = nc mod 365;
          y = n400 * 400 + 1 + n100 * 100 + n4 * 4 + n1
      in if n1 = 4 \<or> n100 = 4 then (y - 1, 12, 31)
         else case month_day (n1 = 3 \<and> (n4 \<noteq> 24 \<or> n100 = 3)) nd of
                (m, d) \<Rightarrow> (y, m, d))"

text \<open>\<^verbatim>\<open>date.fromordinal\<close>: the argument is parsed as a C \<^verbatim>\<open>int\<close>, then checked.\<close>

definition fromordinal :: "int \<Rightarrow> error + date" where
  "fromordinal n =
     (if \<not> fits_C_int n then Inl OverflowError
      else if n < 1 then Inl ValueError
      else case ord2ymd n of (y, m, d) \<Rightarrow> date_new y m d)"

section \<open>Strings\<close>

text \<open>
  \<^verbatim>\<open>str(i)\<close> for an integer and \<^verbatim>\<open>s.zfill(width)\<close>. A \<open>char\<close> is a byte; the strings
  the scripts build from numbers are ASCII.
\<close>

definition digit_char :: "nat \<Rightarrow> char" where
  "digit_char n = ''0123456789'' ! n"

fun digits :: "nat \<Rightarrow> string" where
  "digits n = (if n < 10 then [digit_char n] else digits (n div 10) @ [digit_char (n mod 10)])"

declare digits.simps [simp del]

definition str :: "int \<Rightarrow> string" where
  "str i = (if i < 0 then CHR ''-'' # digits (nat (- i)) else digits (nat i))"

definition zfill :: "nat \<Rightarrow> string \<Rightarrow> string" where
  "zfill width s =
     (if width \<le> length s then s
      else case s of
             c # cs \<Rightarrow> if c = CHR ''+'' \<or> c = CHR ''-''
                       then c # replicate (width - length s) CHR ''0'' @ cs
                       else replicate (width - length s) CHR ''0'' @ s
           | [] \<Rightarrow> replicate width CHR ''0'')"

definition upper_char :: "char \<Rightarrow> char" where
  "upper_char c =
     (case map_of (zip ''abcdefghijklmnopqrstuvwxyz'' ''ABCDEFGHIJKLMNOPQRSTUVWXYZ'') c of
        None \<Rightarrow> c
      | Some u \<Rightarrow> u)"

text \<open>
  \<^verbatim>\<open>s.upper()\<close>. On a string of ASCII characters it turns the letters a to z into A to
  Z and leaves the rest. On any other string Python follows the Unicode case mapping,
  which can even change the length of the string (a sharp s becomes \<^verbatim>\<open>SS\<close>). That
  mapping is not written out: it is the argument \<open>unicode_upper\<close>.
\<close>

definition is_ascii :: "char \<Rightarrow> bool" where
  "is_ascii c \<longleftrightarrow> \<not> digit7 c"

definition upper :: "(string \<Rightarrow> string) \<Rightarrow> string \<Rightarrow> string" where
  "upper unicode_upper s =
     (if list_all is_ascii s then map upper_char s else unicode_upper s)"

text \<open>
  \<^verbatim>\<open>d.strftime('%Y-%m-%d')\<close>, as the C library that the scripts run on writes it: month
  and day with two digits, the year as it is, so with fewer than four digits below the
  year 1000 (\<^verbatim>\<open>'999-01-01'\<close>).
\<close>

definition strftime :: "date \<Rightarrow> string" where
  "strftime D =
     str (year D) @ ''-'' @ zfill 2 (str (month D)) @ ''-'' @ zfill 2 (str (day D))"


section \<open>Month advance\<close>

text \<open>
  \<^verbatim>\<open>addmonths4date(date, addmonths)\<close> of \<^verbatim>\<open>ERA5_utilities.py\<close>. The month passed to
  \<^verbatim>\<open>monthrange\<close> is in 1..12 by construction; the constructor on the last line raises
  when the year has left \<open>MINYEAR..MAXYEAR\<close>.
\<close>

definition addmonths4date :: "date \<Rightarrow> int \<Rightarrow> error + date" where
  "addmonths4date D addmonths =
     (let month0 = month D - 1 + addmonths;
          year1 = year D + month0 div 12;
          month1 = month0 mod 12 + 1
      in case monthrange year1 month1 of
           Inl e \<Rightarrow> Inl e
         | Inr n \<Rightarrow> date_new year1 month1 (min (day D) n))"

text \<open>\<^verbatim>\<open>add_months(sourcedate, months)\<close> of \<^verbatim>\<open>ERA5_analysis_request.py\<close>.\<close>

definition add_months :: "date \<Rightarrow> int \<Rightarrow> error + date" where
  "add_months sourcedate months =
     (let month0 = month sourcedate - 1 + months;
          year1 = year sourcedate + month0 div 12;
          month1 = month0 mod 12 + 1
      in case monthrange year1 month1 of
           Inl e \<Rightarrow> Inl e
         | Inr n \<Rightarrow> date_new year1 month1 (min (day sourcedate) n))"

text \<open>The linearised month index of the specification.\<close>

definition month_index :: "date \<Rightarrow> int" where
  "month_index D = year D * 12 + month D"

section \<open>User options, metadata table, requests\<close>

text \<open>
  The user options at the head of each script (\<^verbatim>\<open>varea\<close> in \<^verbatim>\<open>ERA5_request.py\<close> is
  \<^verbatim>\<open>area\<close> in \<^verbatim>\<open>ERA5_analysis_request.py\<close>), the dictionary read from the JSON file
  (a key to a list of strings) and what one call of \<^verbatim>\<open>c.retrieve(product, options,
  output)\<close> receives. A Python \<^verbatim>\<open>dict\<close> compares by content, whatever the order of
  insertion: a map.
\<close>

record config =
  year_start :: int
  month_start :: int
  year_end :: int
  month_end :: int
  n_overlap :: int
  time :: string
  area :: "int list"
  variables :: "string list"

type_synonym table = "string \<rightharpoonup> string list"

datatype pyval = Str string | IntList "int list"

record request =
  rq_product :: string
  rq_options :: "string \<rightharpoonup> pyval"
  rq_output :: string

definition getitem :: "'a list \<Rightarrow> nat \<Rightarrow> error + 'a" where
  "getitem xs i = (if i < length xs then Inr (xs ! i) else Inl IndexError)"

section \<open>The date window of one month\<close>

text \<open>
  Lines 98 to 118 of \<^verbatim>\<open>ERA5_request.py\<close> and 131 to 151 of
  \<^verbatim>\<open>ERA5_analysis_request.py\<close>, which differ in the names of the temporaries only. The
  record keeps the two dates before they are formatted, next to the strings.
\<close>

record window =
  w_year :: int
  w_month :: int
  start_overlap :: date
  end_overlap :: date
  datestr_start_overlap :: string
  datestr_end_overlap :: string
  vdate :: string

definition month_window :: "date \<Rightarrow> int \<Rightarrow> error + window" where
  "month_window monthly_date overlap =
     (let y = year monthly_date; m = month monthly_date
      in case monthrange y m of
           Inl e \<Rightarrow> Inl e
         | Inr days \<Rightarrow>
        (case date_new y m 1 of
           Inl e \<Rightarrow> Inl e
         | Inr date_start \<Rightarrow>
        (case date_new y m days of
           Inl e \<Rightarrow> Inl e
         | Inr date_end \<Rightarrow>
        (let n_start = toordinal date_start; n_end = toordinal date_end
         in case fromordinal (n_start - overlap) of
              Inl e \<Rightarrow> Inl e
            | Inr ds \<Rightarrow>
           (case fromordinal (n_end + overlap) of
              Inl e \<Rightarrow> Inl e
            | Inr de \<Rightarrow>
                Inr \<lparr>w_year = y, w_month = m, start_overlap = ds, end_overlap = de,
                     datestr_start_overlap = strftime ds, datestr_end_overlap = strftime de,
                     vdate = strftime ds @ ''/'' @ strftime de\<rparr>)))))"

section \<open>Request assembly\<close>

text \<open>Lines 155 to 157 of \<^verbatim>\<open>ERA5_request.py\<close>: the identifier, uppercased.\<close>

definition fname_main :: "(string \<Rightarrow> string) \<Rightarrow> string \<Rightarrow> int \<Rightarrow> int \<Rightarrow> string" where
  "fname_main unicode_upper vname y m =
     ''ERA5_ecmwf_'' @ upper unicode_upper vname @ ''_Y'' @ str y @ ''M'' @
     zfill 2 (str m) @ ''.nc''"

text \<open>Lines 188 to 190 of \<^verbatim>\<open>ERA5_analysis_request.py\<close>: the abbreviation, as it is.\<close>

definition fname_analysis :: "string \<Rightarrow> int \<Rightarrow> int \<Rightarrow> string" where
  "fname_analysis vabbr y m =
     ''ERA5_ecmwf_'' @ vabbr @ ''_Y'' @ str y @ ''M'' @ zfill 2 (str m) @ ''.nc''"

text \<open>Lines 128 to 157 of \<^verbatim>\<open>ERA5_request.py\<close>.\<close>

definition request_main ::
  "(string \<Rightarrow> string) \<Rightarrow> string \<Rightarrow> string \<Rightarrow> string \<Rightarrow> string \<Rightarrow> string \<Rightarrow> int list \<Rightarrow>
   string \<Rightarrow> int \<Rightarrow> int \<Rightarrow> request"
where
  "request_main unicode_upper vname vlong vlevt date_interval hours varea era5_dir y m =
     (let options0 = [''product_type'' \<mapsto> Str ''reanalysis'', ''type'' \<mapsto> Str ''an'',
                      ''date'' \<mapsto> Str date_interval, ''variable'' \<mapsto> Str vlong,
                      ''levtype'' \<mapsto> Str vlevt, ''area'' \<mapsto> IntList varea,
                      ''format'' \<mapsto> Str ''netcdf''];
          options1 = (if vlong = ''sea_surface_temperature''
                      then options0(''time'' \<mapsto> Str ''12'')
                      else options0(''time'' \<mapsto> Str hours));
          (options2, product) =
            (if vlong = ''specific_humidity'' \<or> vlong = ''relative_humidity''
             then (options1(''pressure_level'' \<mapsto> Str ''1000''),
                   ''reanalysis-era5-pressure-levels'')
             else (options1, ''reanalysis-era5-single-levels''));
          output = era5_dir @ ''/'' @ fname_main unicode_upper vname y m
      in \<lparr>rq_product = product, rq_options = options2, rq_output = output\<rparr>)"

text \<open>Lines 161 to 190 of \<^verbatim>\<open>ERA5_analysis_request.py\<close>.\<close>

definition request_analysis ::
  "string \<Rightarrow> string \<Rightarrow> string \<Rightarrow> string \<Rightarrow> string \<Rightarrow> int list \<Rightarrow> string \<Rightarrow> int \<Rightarrow> int \<Rightarrow> request"
where
  "request_analysis vname vlevt vabbr date_interval hours varea era5_dir y m =
     (let options0 = [''product_type'' \<mapsto> Str ''reanalysis'', ''type'' \<mapsto> Str ''an'',
                      ''date'' \<mapsto> Str date_interval, ''variable'' \<mapsto> Str vname,
                      ''levtype'' \<mapsto> Str vlevt, ''area'' \<mapsto> IntList varea,
                      ''format'' \<mapsto> Str ''netcdf''];
          options1 = (if vname = ''sea_surface_temperature''
                      then options0(''time'' \<mapsto> Str ''12'')
                      else options0(''time'' \<mapsto> Str hours));
          (options2, product) =
            (if vname = ''specific_humidity'' \<or> vname = ''relative_humidity''
             then (options1(''pressure_level'' \<mapsto> Str ''1000''),
                   ''reanalysis-era5-pressure-levels'')
             else (options1, ''reanalysis-era5-single-levels''));
          output = era5_dir @ ''/'' @ fname_analysis vabbr y m
      in \<lparr>rq_product = product, rq_options = options2, rq_output = output\<rparr>)"

text \<open>
  One pass of the variables loop: the metadata of the identifier, the request, and the
  call of the client. \<^verbatim>\<open>ERA5_request.py\<close> reads the long name at position 0 and the
  level type at position 3 (lines 123 to 126), \<^verbatim>\<open>ERA5_analysis_request.py\<close> the level
  type at 1 and the abbreviation at 2 (lines 156 to 159). \<^verbatim>\<open>era5[vname]\<close> raises
  \<^verbatim>\<open>KeyError(vname)\<close>.

  The last two statements of the pass, \<^verbatim>\<open>c = cdsapi.Client()\<close> and \<^verbatim>\<open>c.retrieve(product,
  options, output)\<close> (lines 173 to 177 and 206 to 210), run code outside the repository.
  They are the argument \<open>retrieve\<close>: \<open>None\<close> when both return, \<open>Some e\<close> when one of them
  raises \<open>e\<close>, which nothing catches. The pass returns the request when it was retrieved.
\<close>

definition variable_step_main ::
  "(request \<Rightarrow> error option) \<Rightarrow> (string \<Rightarrow> string) \<Rightarrow> table \<Rightarrow> config \<Rightarrow> string \<Rightarrow> int \<Rightarrow> int \<Rightarrow>
   string \<Rightarrow> string \<Rightarrow> error + request"
where
  "variable_step_main retrieve unicode_upper era5 cfg era5_dir y m date_interval vname =
     (case era5 vname of
        None \<Rightarrow> Inl (KeyError vname)
      | Some entry \<Rightarrow>
       (case getitem entry 0 of
          Inl e \<Rightarrow> Inl e
        | Inr vlong \<Rightarrow>
         (case getitem entry 3 of
            Inl e \<Rightarrow> Inl e
          | Inr vlevt \<Rightarrow>
             (let r = request_main unicode_upper vname vlong vlevt date_interval (time cfg)
                        (area cfg) era5_dir y m
              in case retrieve r of Some e \<Rightarrow> Inl e | None \<Rightarrow> Inr r))))"

definition variable_step_analysis ::
  "(request \<Rightarrow> error option) \<Rightarrow> table \<Rightarrow> config \<Rightarrow> string \<Rightarrow> int \<Rightarrow> int \<Rightarrow> string \<Rightarrow> string \<Rightarrow>
   error + request"
where
  "variable_step_analysis retrieve era5 cfg era5_dir y m date_interval vname =
     (case era5 vname of
        None \<Rightarrow> Inl (KeyError vname)
      | Some entry \<Rightarrow>
       (case getitem entry 1 of
          Inl e \<Rightarrow> Inl e
        | Inr vlevt \<Rightarrow>
         (case getitem entry 2 of
            Inl e \<Rightarrow> Inl e
          | Inr vabbr \<Rightarrow>
             (let r = request_analysis vname vlevt vabbr date_interval (time cfg) (area cfg)
                        era5_dir y m
              in case retrieve r of Some e \<Rightarrow> Inl e | None \<Rightarrow> Inr r))))"

section \<open>The two loops\<close>

text \<open>
  The variables loop makes one pass per identifier, in the order of the list, and
  stops at the first exception, of the lookups or of the client. The result is the
  list of the requests retrieved and the exception, if any.
\<close>

fun variables_loop ::
  "(string \<Rightarrow> error + request) \<Rightarrow> string list \<Rightarrow> request list \<times> error option"
where
  "variables_loop step [] = ([], None)"
| "variables_loop step (vname # rest) =
     (case step vname of
        Inl e \<Rightarrow> ([], Some e)
      | Inr r \<Rightarrow> (case variables_loop step rest of (rs, e) \<Rightarrow> (r # rs, e)))"

text \<open>
  The monthly loop, \<^verbatim>\<open>for j in range(len_monthly_dates)\<close>: the window of the current
  month, the variables loop, then the month advance. The two scripts have the same
  text here up to the names \<^verbatim>\<open>addmonths4date\<close> and \<^verbatim>\<open>add_months\<close> and the body of the
  variables loop, which are the first two arguments. The result lists, per month
  reached, the window and the requests retrieved in it.
\<close>

fun monthly_loop ::
  "(date \<Rightarrow> error + date) \<Rightarrow> (int \<Rightarrow> int \<Rightarrow> string \<Rightarrow> string \<Rightarrow> error + request) \<Rightarrow>
   int \<Rightarrow> string list \<Rightarrow> nat \<Rightarrow> date \<Rightarrow> (window \<times> request list) list \<times> error option"
where
  "monthly_loop advance step overlap vars 0 monthly_date = ([], None)"
| "monthly_loop advance step overlap vars (Suc j) monthly_date =
     (case month_window monthly_date overlap of
        Inl e \<Rightarrow> ([], Some e)
      | Inr w \<Rightarrow>
       (case variables_loop (step (year monthly_date) (month monthly_date) (vdate w)) vars of
          (rs, Some e) \<Rightarrow> ([(w, rs)], Some e)
        | (rs, None) \<Rightarrow>
         (case advance monthly_date of
            Inl e \<Rightarrow> ([(w, rs)], Some e)
          | Inr next_date \<Rightarrow>
             (case monthly_loop advance step overlap vars j next_date of
                (its, e) \<Rightarrow> ((w, rs) # its, e)))))"

text \<open>The length of the monthly loop, lines 88 to 90 and 122 to 123.\<close>

definition len_monthly_dates :: "date \<Rightarrow> date \<Rightarrow> int" where
  "len_monthly_dates monthly_date_start monthly_date_end =
     (year monthly_date_end - year monthly_date_start) * 12 +
     (month monthly_date_end - month monthly_date_start) + 1"

text \<open>
  \<^verbatim>\<open>ERA5_request.py\<close> from line 85 on, with the client, the case mapping, the working
  directory and the loaded table as arguments. \<^verbatim>\<open>range(n)\<close> is empty for \<open>n \<le> 0\<close>.
\<close>

definition run_main ::
  "(request \<Rightarrow> error option) \<Rightarrow> (string \<Rightarrow> string) \<Rightarrow> config \<Rightarrow> string \<Rightarrow> table \<Rightarrow>
   (window \<times> request list) list \<times> error option"
where
  "run_main retrieve unicode_upper cfg main_dir era5 =
     (let era5_dir = main_dir @ ''/ERA5''
      in case date_new (year_start cfg) (month_start cfg) 1 of
           Inl e \<Rightarrow> ([], Some e)
         | Inr monthly_date_start \<Rightarrow>
          (case date_new (year_end cfg) (month_end cfg) 1 of
             Inl e \<Rightarrow> ([], Some e)
           | Inr monthly_date_end \<Rightarrow>
               monthly_loop (\<lambda>d. addmonths4date d 1)
                 (variable_step_main retrieve unicode_upper era5 cfg era5_dir)
                 (n_overlap cfg) (variables cfg)
                 (nat (len_monthly_dates monthly_date_start monthly_date_end))
                 monthly_date_start))"

text \<open>\<^verbatim>\<open>ERA5_analysis_request.py\<close> from line 119 on.\<close>

definition run_analysis ::
  "(request \<Rightarrow> error option) \<Rightarrow> config \<Rightarrow> string \<Rightarrow> table \<Rightarrow>
   (window \<times> request list) list \<times> error option"
where
  "run_analysis retrieve cfg main_dir era5 =
     (let era5_dir = main_dir @ ''/ERA5_analysis''
      in case date_new (year_start cfg) (month_start cfg) 1 of
           Inl e \<Rightarrow> ([], Some e)
         | Inr mdate_start \<Rightarrow>
          (case date_new (year_end cfg) (month_end cfg) 1 of
             Inl e \<Rightarrow> ([], Some e)
           | Inr mdate_end \<Rightarrow>
               monthly_loop (\<lambda>d. add_months d 1)
                 (variable_step_analysis retrieve era5 cfg era5_dir)
                 (n_overlap cfg) (variables cfg)
                 (nat (len_monthly_dates mdate_start mdate_end))
                 mdate_start))"

section \<open>The ordinal of the first day of a month\<close>

text \<open>
  For the proofs: the ordinal of the first day of the month with linearised index
  \<open>ix = year * 12 + month\<close>. It grows with the index, which orders the dates.
\<close>

definition month_first_ord :: "int \<Rightarrow> int" where
  "month_first_ord ix = ymd2ord ((ix - 1) div 12) ((ix - 1) mod 12 + 1) 1"

section \<open>Identifiers that resolve\<close>



text \<open>
  Line 159 of \<^verbatim>\<open>ERA5_analysis_request.py\<close> alone: the abbreviation of an identifier,
  \<^verbatim>\<open>era5[vname][2]\<close>.
\<close>

definition lookup_vabbr :: "table \<Rightarrow> string \<Rightarrow> error + string" where
  "lookup_vabbr era5 vname =
     (case era5 vname of None \<Rightarrow> Inl (KeyError vname) | Some entry \<Rightarrow> getitem entry 2)"

section \<open>Well-formed options and a worked example\<close>

text \<open>
  The option values for which lines 85 and 86 of \<^verbatim>\<open>ERA5_request.py\<close> (119 and 120 of
  \<^verbatim>\<open>ERA5_analysis_request.py\<close>) construct the two limits of the monthly loop: years
  and months that \<^verbatim>\<open>datetime.datetime\<close> accepts.
\<close>

definition valid_config :: "config \<Rightarrow> bool" where
  "valid_config cfg \<longleftrightarrow>
     MINYEAR \<le> year_start cfg \<and> year_start cfg \<le> MAXYEAR \<and>
     1 \<le> month_start cfg \<and> month_start cfg \<le> 12 \<and>
     MINYEAR \<le> year_end cfg \<and> year_end cfg \<le> MAXYEAR \<and>
     1 \<le> month_end cfg \<and> month_end cfg \<le> 12"

text \<open>
  The scenario of the specification: November and December 2020, one overlapping day,
  a table with a surface variable and a pressure-level variable. The entries hold the
  fields of both table layouts (long name, level type, abbreviation, level type).
\<close>

definition example_config :: config where
  "example_config =
     \<lparr>year_start = 2020, month_start = 11, year_end = 2020, month_end = 12, n_overlap = 1,
      time = ''00/06/12/18'', area = [-30, -80, -40, -70], variables = [''sst'', ''q'']\<rparr>"

definition example_table :: table where
  "example_table =
     [''sst'' \<mapsto> [''sea_surface_temperature'', ''sfc'', ''SST'', ''sfc''],
      ''q'' \<mapsto> [''specific_humidity'', ''pl'', ''Q'', ''pl'']]"

text \<open>What the scripts compute for November 2020 with one overlapping day.\<close>

definition nov2020 :: window where
  "nov2020 =
     \<lparr>w_year = 2020, w_month = 11,
      start_overlap = \<lparr>year = 2020, month = 10, day = 31\<rparr>,
      end_overlap = \<lparr>year = 2020, month = 12, day = 1\<rparr>,
      datestr_start_overlap = ''2020-10-31'', datestr_end_overlap = ''2020-12-01'',
      vdate = ''2020-10-31/2020-12-01''\<rparr>"



text \<open>
  A table that holds an identifier in two spellings, and options that request both.
\<close>

definition clash_table :: table where
  "clash_table =
     [''sst'' \<mapsto> [''sea_surface_temperature'', ''sfc'', ''SST'', ''sfc''],
      ''SST'' \<mapsto> [''sea_surface_temperature'', ''sfc'', ''SST'', ''sfc'']]"

definition clash_config :: config where
  "clash_config =
     \<lparr>year_start = 2020, month_start = 11, year_end = 2020, month_end = 11, n_overlap = 1,
      time = ''00/06/12/18'', area = [-30, -80, -40, -70], variables = [''sst'', ''SST'']\<rparr>"


text \<open>
  Two clients, one that retrieves every request and one that raises on every request.
  The identifiers of the examples are ASCII, so the case mapping outside ASCII is never
  consulted there; \<open>leave_unicode\<close> fills its place.
\<close>

definition client_returns :: "request \<Rightarrow> error option" where
  "client_returns r = None"


definition leave_unicode :: "string \<Rightarrow> string" where
  "leave_unicode s = s"

section \<open>Facts about the calendar\<close>

lemma month_cases:
  assumes "1 \<le> m" "m \<le> 12"
  obtains "m = 1" | "m = 2" | "m = 3" | "m = 4" | "m = 5" | "m = 6"
    | "m = 7" | "m = 8" | "m = 9" | "m = 10" | "m = 11" | "m = (12::int)"
proof -
  have "m \<in> set [1..12]" using assms by simp
  also have "[1..12::int] = [1, 2, 3, 4, 5, 6, 7, 8, 9, 10, 11, 12]" by code_simp
  finally show thesis using that by auto
qed

lemma days_in_month_bounds:
  assumes "1 \<le> m" "m \<le> 12"
  shows "28 \<le> days_in_month y m" "days_in_month y m \<le> 31"
  using assms by (cases m rule: month_cases; simp add: days_in_month_def DAYS_IN_MONTH_def)+

lemma monthrange_days_in_month:
  "1 \<le> m \<Longrightarrow> m \<le> 12 \<Longrightarrow> monthrange y m = Inr (days_in_month y m)"
  by (cases m rule: month_cases) (simp_all add: monthrange_def days_in_month_def mdays_def DAYS_IN_MONTH_def)

lemma add_months_eq: "add_months D n = addmonths4date D n"
  by (simp add: add_months_def addmonths4date_def)

lemma date_new_ok:
  assumes "MINYEAR \<le> y" "y \<le> MAXYEAR" "1 \<le> m" "m \<le> 12" "1 \<le> d" "d \<le> days_in_month y m"
  shows "date_new y m d = Inr \<lparr>year = y, month = m, day = d\<rparr>"
proof -
  have "d \<le> 31" using assms days_in_month_bounds(2)[of m y] by linarith
  then have "fits_C_int y \<and> fits_C_int m \<and> fits_C_int d"
    using assms by (simp add: fits_C_int_def MINYEAR_def MAXYEAR_def)
  then show ?thesis using assms by (simp add: date_new_def)
qed

lemma addmonths4date_result:
  assumes "valid_date D"
    and "MINYEAR * 12 + 1 \<le> month_index D + n" and "month_index D + n \<le> MAXYEAR * 12 + 12"
  defines "y' \<equiv> year D + (month D - 1 + n) div 12"
    and "m' \<equiv> (month D - 1 + n) mod 12 + 1"
  shows "addmonths4date D n = Inr \<lparr>year = y', month = m', day = min (day D) (days_in_month y' m')\<rparr>"
    and "MINYEAR \<le> y'" "y' \<le> MAXYEAR" "1 \<le> m'" "m' \<le> 12" "y' * 12 + m' = month_index D + n"
proof -
  show m: "1 \<le> m'" "m' \<le> 12" by (simp_all add: m'_def) 
  show idx: "y' * 12 + m' = month_index D + n"
    by (simp add: y'_def m'_def month_index_def algebra_simps) 
  show y: "MINYEAR \<le> y'" "y' \<le> MAXYEAR"
    using idx m assms(2,3) by (simp_all add: MINYEAR_def MAXYEAR_def)
  have d: "1 \<le> day D" using assms(1) by (simp add: valid_date_def)
  have "1 \<le> min (day D) (days_in_month y' m')" "min (day D) (days_in_month y' m') \<le> days_in_month y' m'"
    using d days_in_month_bounds(1)[OF m, of y'] by simp_all
  then have "date_new y' m' (min (day D) (days_in_month y' m')) =
      Inr \<lparr>year = y', month = m', day = min (day D) (days_in_month y' m')\<rparr>"
    using date_new_ok[OF y m] by blast
  then show "addmonths4date D n = Inr \<lparr>year = y', month = m', day = min (day D) (days_in_month y' m')\<rparr>"
    by (simp add: addmonths4date_def Let_def monthrange_days_in_month[OF m] y'_def[symmetric] m'_def[symmetric])
qed

section \<open>Ordinals: \<^verbatim>\<open>toordinal\<close> and \<^verbatim>\<open>fromordinal\<close> are inverse\<close>

lemma div_step:
  assumes "0 < (d::int)"
  shows "y div d - (y - 1) div d = (if y mod d = 0 then 1 else 0)"
proof (cases "y mod d = 0")
  case True
  have "y = d * (y div d) + y mod d" by simp
  then have "y - 1 = d * (y div d - 1) + (d - 1)" using True by (simp add: algebra_simps)
  then have "(y - 1) div d = y div d - 1"
    by (rule int_div_pos_eq) (use assms in simp_all)
  then show ?thesis using True by simp
next
  case False
  then have pos: "0 < y mod d" using assms pos_mod_sign[of d y] by linarith
  have "y = d * (y div d) + y mod d" by simp
  then have "y - 1 = d * (y div d) + (y mod d - 1)" by simp
  then have "(y - 1) div d = y div d"
    by (rule int_div_pos_eq) (use assms pos pos_mod_bound[of d y] in linarith)+
  then show ?thesis using False by simp
qed

lemma mod_chain:
  "(y::int) mod 400 = 0 \<Longrightarrow> y mod 100 = 0" "(y::int) mod 100 = 0 \<Longrightarrow> y mod 4 = 0"
proof -
  have "y mod 400 mod 100 = y mod 100" by (rule mod_mod_cancel) simp
  then show "y mod 400 = 0 \<Longrightarrow> y mod 100 = 0" by simp
  have "y mod 100 mod 4 = y mod 4" by (rule mod_mod_cancel) simp
  then show "y mod 100 = 0 \<Longrightarrow> y mod 4 = 0" by simp
qed

lemma leap_count:
  "(c \<longrightarrow> b) \<Longrightarrow> (b \<longrightarrow> a) \<Longrightarrow>
   (365::int) + (if a then 1 else 0) - (if b then 1 else 0) + (if c then 1 else 0) =
   365 + (if a \<and> (\<not> b \<or> c) then 1 else 0)"
  by (cases a; cases b; cases c; simp)

lemma days_before_year_step:
  "days_before_year (y + 1) = days_before_year y + 365 + (if isleap y then 1 else 0)"
proof -
  have "days_before_year (y + 1) - days_before_year y =
      365 + (y div 4 - (y - 1) div 4) - (y div 100 - (y - 1) div 100) + (y div 400 - (y - 1) div 400)"
    unfolding days_before_year_def Let_def by (simp add: algebra_simps)
  also have "\<dots> = 365 + (if y mod 4 = 0 then 1 else 0) - (if y mod 100 = 0 then 1 else 0)
      + (if y mod 400 = 0 then 1 else 0)"
    by (simp only: div_step[of 4 y, simplified] div_step[of 100 y, simplified]
      div_step[of 400 y, simplified])
  also have "\<dots> = 365 + (if isleap y then 1 else 0)"
    unfolding isleap_def by (rule leap_count) (use mod_chain[of y] in blast)+
  finally show ?thesis by simp
qed


lemma days_before_month_step:
  assumes "1 \<le> m" "m \<le> 11"
  shows "days_before_month y (m + 1) = days_before_month y m + days_in_month y m"
proof -
  have "m \<le> 12" using assms by simp
  with assms(1) show ?thesis
    by (cases m rule: month_cases)
      (use assms in \<open>simp_all add: days_before_month_def days_in_month_def
          DAYS_BEFORE_MONTH_def DAYS_IN_MONTH_def\<close>)
qed

lemma days_before_month_12:
  "days_before_month y 12 + days_in_month y 12 = 365 + (if isleap y then 1 else 0)"
  "days_before_month y 1 = 0"
  by (simp_all add: days_before_month_def days_in_month_def DAYS_BEFORE_MONTH_def
      DAYS_IN_MONTH_def)

lemma index_div_mod:
  assumes "1 \<le> m" "m \<le> 12"
  shows "(y * 12 + m - 1) div 12 = y" "(y * 12 + m - 1) mod 12 + 1 = (m::int)"
proof -
  have e: "y * 12 + m - 1 = 12 * y + (m - 1)" by simp
  show "(y * 12 + m - 1) div 12 = y"
    by (rule int_div_pos_eq[OF e]) (use assms in linarith)+
  have "(y * 12 + m - 1) mod 12 = m - 1"
    by (rule int_mod_pos_eq[OF e]) (use assms in linarith)+
  then show "(y * 12 + m - 1) mod 12 + 1 = m" by simp
qed

lemma month_first_ord_eq:
  "1 \<le> m \<Longrightarrow> m \<le> 12 \<Longrightarrow> month_first_ord (y * 12 + m) = ymd2ord y m 1"
  by (simp add: month_first_ord_def index_div_mod)

lemma index_split:
  fixes ix :: int
  defines "y \<equiv> (ix - 1) div 12" and "m \<equiv> (ix - 1) mod 12 + 1"
  shows "ix = y * 12 + m" "1 \<le> m" "m \<le> 12"
proof -
  have "ix - 1 = 12 * ((ix - 1) div 12) + (ix - 1) mod 12" by simp
  then show "ix = y * 12 + m" unfolding y_def m_def by linarith
  show "1 \<le> m" "m \<le> 12" unfolding m_def
    using pos_mod_sign[of 12 "ix - 1"] pos_mod_bound[of 12 "ix - 1"] by linarith+
qed

lemma month_first_ord_step:
  "month_first_ord (ix + 1) =
     month_first_ord ix + days_in_month ((ix - 1) div 12) ((ix - 1) mod 12 + 1)"
proof -
  define y where "y = (ix - 1) div 12"
  define m where "m = (ix - 1) mod 12 + 1"
  have ix: "ix = y * 12 + m" and m: "1 \<le> m" "m \<le> 12"
    unfolding y_def m_def by (rule index_split)+
  have cur: "month_first_ord ix = ymd2ord y m 1"
    unfolding ix by (rule month_first_ord_eq[OF m])
  show ?thesis
  proof (cases "m = 12")
    case True
    have "ix + 1 = (y + 1) * 12 + 1" using ix True by simp
    then have "month_first_ord (ix + 1) = month_first_ord ((y + 1) * 12 + 1)" by (rule arg_cong)
    also have "\<dots> = ymd2ord (y + 1) 1 1"
      by (rule month_first_ord_eq) simp_all
    also have "\<dots> = ymd2ord y 12 1 + days_in_month y 12"
      using days_before_month_12[of y] days_before_month_12(2)[of "y + 1"]
      by (simp add: ymd2ord_def days_before_year_step)
    finally show ?thesis using cur True by (simp add: y_def[symmetric] m_def[symmetric])
  next
    case False
    then have m11: "m \<le> 11" using m by simp
    have "ix + 1 = y * 12 + (m + 1)" using ix by simp
    then have "month_first_ord (ix + 1) = month_first_ord (y * 12 + (m + 1))" by (rule arg_cong)
    also have "\<dots> = ymd2ord y (m + 1) 1"
      by (rule month_first_ord_eq) (use m m11 in simp_all)
    also have "\<dots> = ymd2ord y m 1 + days_in_month y m"
      by (simp add: ymd2ord_def days_before_month_step[OF m(1) m11])
    finally show ?thesis using cur by (simp add: y_def[symmetric] m_def[symmetric])
  qed
qed

lemma month_first_ord_grows:
  "month_first_ord ix + 28 * int k \<le> month_first_ord (ix + int k)"
proof (induction k)
  case 0
  then show ?case by simp
next
  case (Suc k)
  have "28 \<le> days_in_month ((ix + int k - 1) div 12) ((ix + int k - 1) mod 12 + 1)"
    by (rule days_in_month_bounds(1)) (rule index_split(2,3))+
  then have step: "month_first_ord (ix + int k) + 28 \<le> month_first_ord (ix + int k + 1)"
    by (simp add: month_first_ord_step)
  have "ix + int k + 1 = ix + int (Suc k)" by simp
  then have e: "month_first_ord (ix + int k + 1) = month_first_ord (ix + int (Suc k))"
    by (rule arg_cong)
  have "month_first_ord ix + 28 * int (Suc k) = (month_first_ord ix + 28 * int k) + 28"
    by simp
  also have "\<dots> \<le> month_first_ord (ix + int k) + 28" using Suc.IH by simp
  also have "\<dots> \<le> month_first_ord (ix + int k + 1)" by (rule step)
  finally show ?case unfolding e .
qed

lemma month_first_ord_mono:
  assumes "ix \<le> ix'"
  shows "month_first_ord ix \<le> month_first_ord ix'"
proof -
  have "ix + int (nat (ix' - ix)) = ix'" using assms by simp
  then have "month_first_ord (ix + int (nat (ix' - ix))) = month_first_ord ix'"
    by (rule arg_cong)
  moreover have "0 \<le> 28 * int (nat (ix' - ix))" by simp
  ultimately show ?thesis using month_first_ord_grows[of ix "nat (ix' - ix)"] by linarith
qed


lemma ymd2ord_month_first:
  assumes "1 \<le> m" "m \<le> 12"
  shows "ymd2ord y m d = month_first_ord (y * 12 + m) + d - 1"
  by (simp add: month_first_ord_eq[OF assms] ymd2ord_def)

lemma month_last_ord:
  assumes "1 \<le> m" "m \<le> 12"
  shows "ymd2ord y m (days_in_month y m) = month_first_ord (y * 12 + m + 1) - 1"
  using month_first_ord_step[of "y * 12 + m"] index_div_mod[OF assms, of y]
  by (simp add: ymd2ord_month_first[OF assms])

lemma month_first_ord_consts:
  "month_first_ord 13 = 1" "month_first_ord 120001 = 3652060"
  by (simp_all add: month_first_ord_def ymd2ord_def days_before_year_def
      days_before_month_def DAYS_BEFORE_MONTH_def)

lemma month_day_correct:
  assumes "0 \<le> n" "n \<le> 364"
  shows "case month_day lp n of (m, d) \<Rightarrow>
           1 \<le> m \<and> m \<le> 12 \<and> 1 \<le> d \<and>
           d \<le> (if m = 2 \<and> lp then 29 else DAYS_IN_MONTH ! nat m) \<and>
           DAYS_BEFORE_MONTH ! nat m + (if m > 2 \<and> lp then 1 else 0) + d = n + 1"
proof -
  define m0 where "m0 = (n + 50) div 32"
  define r where "r = (n + 50) mod 32"
  have r: "0 \<le> r" "r < 32" unfolding r_def by simp_all
  have e: "n = 32 * m0 + r - 50" unfolding m0_def r_def by simp
  have "1 \<le> m0" "m0 \<le> 12" using assms r e by linarith+
  then show ?thesis
    using assms e r unfolding month_day_def Let_def m0_def[symmetric]
    by (cases m0 rule: month_cases; cases lp;
        simp add: DAYS_BEFORE_MONTH_def DAYS_IN_MONTH_def)
qed

lemma mod_zero_iff:
  assumes "0 < z" "z \<le> (d::int)"
  shows "(d * k + z) mod d = 0 \<longleftrightarrow> z = d"
proof (cases "z = d")
  case True
  then show ?thesis by simp
next
  case False
  then have "z < d" using assms by simp
  then have "z mod d = z" using assms by simp
  moreover have "(d * k + z) mod d = z mod d" by simp
  ultimately show ?thesis using assms False by simp
qed

lemma cycle_year:
  fixes q h f o' :: int
  assumes "0 \<le> h" "h \<le> 3" "0 \<le> f" "f \<le> 24" "0 \<le> o'" "o' \<le> 3"
  defines "y \<equiv> q * 400 + 1 + h * 100 + f * 4 + o'"
  shows "days_before_year y = 146097 * q + 36524 * h + 1461 * f + 365 * o'"
    and "isleap y \<longleftrightarrow> o' = 3 \<and> (f \<noteq> 24 \<or> h = 3)"
proof -
  have d4: "(y - 1) div 4 = 100 * q + 25 * h + f"
    by (rule int_div_pos_eq[where r = o']) (use assms in \<open>simp_all add: y_def\<close>)
  have d100: "(y - 1) div 100 = 4 * q + h"
    by (rule int_div_pos_eq[where r = "4 * f + o'"]) (use assms in \<open>simp_all add: y_def\<close>)
  have d400: "(y - 1) div 400 = q"
    by (rule int_div_pos_eq[where r = "100 * h + 4 * f + o'"])
      (use assms in \<open>simp_all add: y_def\<close>)
  show "days_before_year y = 146097 * q + 36524 * h + 1461 * f + 365 * o'"
    unfolding days_before_year_def Let_def d4 d100 d400 by (simp add: y_def)
  have e4: "y = 4 * (100 * q + 25 * h + f) + (o' + 1)" by (simp add: y_def)
  have m4: "y mod 4 = 0 \<longleftrightarrow> o' + 1 = 4"
    unfolding e4 by (rule mod_zero_iff) (use assms in simp_all)
  have e100: "y = 100 * (4 * q + h) + (4 * f + o' + 1)" by (simp add: y_def)
  have m100: "y mod 100 = 0 \<longleftrightarrow> 4 * f + o' + 1 = 100"
    unfolding e100 by (rule mod_zero_iff) (use assms in simp_all)
  have e400: "y = 400 * q + (100 * h + 4 * f + o' + 1)" by (simp add: y_def)
  have m400: "y mod 400 = 0 \<longleftrightarrow> 100 * h + 4 * f + o' + 1 = 400"
    unfolding e400 by (rule mod_zero_iff) (use assms in simp_all)
  show "isleap y \<longleftrightarrow> o' = 3 \<and> (f \<noteq> 24 \<or> h = 3)"
    unfolding isleap_def m4 m100 m400 using assms by linarith
qed

lemma ord2ymd_correct:
  "case ord2ymd n of (y, m, d) \<Rightarrow>
     1 \<le> m \<and> m \<le> 12 \<and> 1 \<le> d \<and> d \<le> days_in_month y m \<and> ymd2ord y m d = n"
proof -
  define q where "q = (n - 1) div 146097"
  define a where "a = (n - 1) mod 146097"
  define h where "h = a div 36524"
  define b where "b = a mod 36524"
  define f where "f = b div 1461"
  define c where "c = b mod 1461"
  define o' where "o' = c div 365"
  define e where "e = c mod 365"
  have n: "n = 146097 * q + a + 1" unfolding q_def a_def by simp
  have a: "0 \<le> a" "a < 146097" unfolding a_def by simp_all
  have ab: "a = 36524 * h + b" "0 \<le> b" "b < 36524" unfolding h_def b_def by simp_all
  have bc: "b = 1461 * f + c" "0 \<le> c" "c < 1461" unfolding f_def c_def by simp_all
  have ce: "c = 365 * o' + e" "0 \<le> e" "e < 365" unfolding o'_def e_def by simp_all
  have h: "0 \<le> h" "h \<le> 4" using a ab by linarith+
  have f: "0 \<le> f" "f \<le> 24" using ab bc by linarith+
  have o: "0 \<le> o'" "o' \<le> 4" using bc ce by linarith+
  have unf: "ord2ymd n =
      (if o' = 4 \<or> h = 4 then (q * 400 + 1 + h * 100 + f * 4 + o' - 1, 12, 31)
       else case month_day (o' = 3 \<and> (f \<noteq> 24 \<or> h = 3)) e of
              (m, d) \<Rightarrow> (q * 400 + 1 + h * 100 + f * 4 + o', m, d))"
    unfolding ord2ymd_def Let_def DI400Y_def DI100Y_def DI4Y_def
      q_def a_def h_def b_def f_def c_def o'_def e_def ..
  have dec: "days_in_month y 12 = 31"
    "days_before_month y 12 = 334 + (if isleap y then 1 else 0)" for y
    by (simp_all add: days_in_month_def days_before_month_def DAYS_IN_MONTH_def
        DAYS_BEFORE_MONTH_def)
  consider (A) "h = 4" | (B) "h \<le> 3" "o' = 4" | (C) "h \<le> 3" "o' \<le> 3"
    using h o by linarith
  then show ?thesis
  proof cases
    case A
    have z1: "b = 0" using A a ab by linarith
    have z2: "f = 0" using z1 bc by linarith
    have z3: "c = 0" using z1 z2 bc by linarith
    have z4: "o' = 0" using z3 ce by linarith
    have z5: "e = 0" using z3 z4 ce by linarith
    note z = z1 z2 z3 z4 z5
    have y: "q * 400 + 1 + h * 100 + f * 4 + o' - 1 = q * 400 + 1 + 3 * 100 + 24 * 4 + 3"
      using A z by simp
    have "days_before_year (q * 400 + 1 + 3 * 100 + 24 * 4 + 3) =
        146097 * q + 36524 * 3 + 1461 * 24 + 365 * 3"
      and "isleap (q * 400 + 1 + 3 * 100 + 24 * 4 + 3)"
      using cycle_year[of 3 24 3 q] by simp_all
    then have "ymd2ord (q * 400 + 1 + 3 * 100 + 24 * 4 + 3) 12 31 = n"
      using n ab A z by (simp add: ymd2ord_def dec)
    then show ?thesis using A unfolding unf y by (simp add: dec)
  next
    case B
    have z: "e = 0" using B ce bc by linarith
    have f23: "f \<le> 23" using B ce bc ab by linarith
    have y: "q * 400 + 1 + h * 100 + f * 4 + o' - 1 = q * 400 + 1 + h * 100 + f * 4 + 3"
      using B by simp
    have "days_before_year (q * 400 + 1 + h * 100 + f * 4 + 3) =
        146097 * q + 36524 * h + 1461 * f + 365 * 3"
      and "isleap (q * 400 + 1 + h * 100 + f * 4 + 3)"
      using cycle_year[of h f 3 q] h B f f23 by simp_all
    then have "ymd2ord (q * 400 + 1 + h * 100 + f * 4 + 3) 12 31 = n"
      using n ab bc ce B z by (simp add: ymd2ord_def dec)
    then show ?thesis using B unfolding unf y by (simp add: dec)
  next
    case C
    let ?y = "q * 400 + 1 + h * 100 + f * 4 + o'"
    let ?lp = "o' = 3 \<and> (f \<noteq> 24 \<or> h = 3)"
    have cy: "days_before_year ?y = 146097 * q + 36524 * h + 1461 * f + 365 * o'"
      "isleap ?y \<longleftrightarrow> ?lp"
      using cycle_year[of h f o' q] h f o C by simp_all
    obtain m d where md: "month_day ?lp e = (m, d)" by (cases "month_day ?lp e")
    have e364: "e \<le> 364" using ce by simp
    from month_day_correct[OF ce(2) e364, of ?lp] md
    have p: "1 \<le> m" "m \<le> 12" "1 \<le> d"
      "d \<le> (if m = 2 \<and> ?lp then 29 else DAYS_IN_MONTH ! nat m)"
      "DAYS_BEFORE_MONTH ! nat m + (if m > 2 \<and> ?lp then 1 else 0) + d = e + 1"
      by simp_all
    have "d \<le> days_in_month ?y m" using p(4) unfolding days_in_month_def cy(2) .
    moreover have "days_before_month ?y m + d = e + 1"
      using p(5) unfolding days_before_month_def cy(2) .
    then have "ymd2ord ?y m d = n"
      using n ab bc ce cy(1) by (simp add: ymd2ord_def)
    ultimately show ?thesis using C p(1-3) unfolding unf md by simp
  qed
qed

lemma ymd2ord_range:
  assumes "1 \<le> m" "m \<le> 12" "1 \<le> d" "d \<le> days_in_month y m"
  shows "month_first_ord (y * 12 + m) \<le> ymd2ord y m d"
    and "ymd2ord y m d < month_first_ord (y * 12 + m + 1)"
  using assms month_last_ord[OF assms(1,2), of y]
  by (simp_all add: ymd2ord_month_first[OF assms(1,2)])

lemma ymd2ord_year_bounds:
  assumes "1 \<le> m" "m \<le> 12" "1 \<le> d" "d \<le> days_in_month y m"
    and "1 \<le> ymd2ord y m d" "ymd2ord y m d \<le> MAXORDINAL"
  shows "MINYEAR \<le> y" "y \<le> MAXYEAR"
proof -
  note r = ymd2ord_range[OF assms(1-4)]
  show "MINYEAR \<le> y"
  proof (rule ccontr)
    assume "\<not> MINYEAR \<le> y"
    then have "y * 12 + m + 1 \<le> 13" using assms(2) by (simp add: MINYEAR_def)
    then have "month_first_ord (y * 12 + m + 1) \<le> 1"
      using month_first_ord_mono[of "y * 12 + m + 1" 13] by (simp add: month_first_ord_consts)
    then show False using r(2) assms(5) by linarith
  qed
  show "y \<le> MAXYEAR"
  proof (rule ccontr)
    assume "\<not> y \<le> MAXYEAR"
    then have "120001 \<le> y * 12 + m" using assms(1) by (simp add: MAXYEAR_def)
    then have "3652060 \<le> month_first_ord (y * 12 + m)"
      using month_first_ord_mono[of 120001 "y * 12 + m"] by (simp add: month_first_ord_consts)
    then show False using r(1) assms(6) by (simp add: MAXORDINAL_def)
  qed
qed

lemma toordinal_bounds:
  assumes "valid_date D"
  shows "1 \<le> toordinal D" "toordinal D \<le> MAXORDINAL"
proof -
  have v: "1 \<le> month D" "month D \<le> 12" "1 \<le> day D"
    "day D \<le> days_in_month (year D) (month D)" "1 \<le> year D" "year D \<le> 9999"
    using assms by (simp_all add: valid_date_def MINYEAR_def MAXYEAR_def)
  note r = ymd2ord_range[OF v(1-4)]
  have "13 \<le> year D * 12 + month D" using v by linarith
  then have "1 \<le> month_first_ord (year D * 12 + month D)"
    using month_first_ord_mono[of 13 "year D * 12 + month D"]
    by (simp add: month_first_ord_consts)
  then show "1 \<le> toordinal D" using r(1) by (simp add: toordinal_def)
  have "year D * 12 + month D + 1 \<le> 120001" using v by linarith
  then have "month_first_ord (year D * 12 + month D + 1) \<le> 3652060"
    using month_first_ord_mono[of "year D * 12 + month D + 1" 120001]
    by (simp add: month_first_ord_consts)
  then show "toordinal D \<le> MAXORDINAL" using r(2) by (simp add: toordinal_def MAXORDINAL_def)
qed

lemma ymd2ord_inj:
  assumes "1 \<le> m" "m \<le> 12" "1 \<le> d" "d \<le> days_in_month y m"
    and "1 \<le> m'" "m' \<le> 12" "1 \<le> d'" "d' \<le> days_in_month y' m'"
    and "ymd2ord y m d = ymd2ord y' m' d'"
  shows "y = y' \<and> m = m' \<and> d = d'"
proof -
  note r = ymd2ord_range[OF assms(1-4)] and r' = ymd2ord_range[OF assms(5-8)]
  have ix: "y * 12 + m = y' * 12 + m'"
  proof (rule ccontr)
    assume "y * 12 + m \<noteq> y' * 12 + m'"
    then consider "y * 12 + m + 1 \<le> y' * 12 + m'" | "y' * 12 + m' + 1 \<le> y * 12 + m"
      by linarith
    then show False
    proof cases
      case 1
      from month_first_ord_mono[OF this] show False using r(2) r'(1) assms(9) by linarith
    next
      case 2
      from month_first_ord_mono[OF this] show False using r'(2) r(1) assms(9) by linarith
    qed
  qed
  then have y: "y = y'" using assms(1,2,5,6) by linarith
  then have "m = m'" using ix by simp
  with y have ym: "y = y'" "m = m'" by simp_all
  then have "d = d'"
    using assms(9) by (simp add: ymd2ord_def)
  then show ?thesis using ym by simp
qed

lemma toordinal_inj:
  assumes "valid_date D" "valid_date D'" "toordinal D = toordinal D'"
  shows "D = D'"
  using assms ymd2ord_inj[of "month D" "day D" "year D" "month D'" "day D'" "year D'"]
  by (simp add: valid_date_def toordinal_def)

lemma fromordinal_ok:
  assumes "1 \<le> n" "n \<le> MAXORDINAL"
  shows "\<exists>D. fromordinal n = Inr D \<and> valid_date D \<and> toordinal D = n"
proof -
  obtain y m d where ymd: "ord2ymd n = (y, m, d)" by (cases "ord2ymd n") auto
  from ord2ymd_correct[of n] ymd
  have p: "1 \<le> m" "m \<le> 12" "1 \<le> d" "d \<le> days_in_month y m" "ymd2ord y m d = n"
    by simp_all
  have yr: "MINYEAR \<le> y" "y \<le> MAXYEAR"
    using ymd2ord_year_bounds[OF p(1-4)] assms p(5) by simp_all
  have "fits_C_int n" using assms by (simp add: fits_C_int_def MAXORDINAL_def)
  then have "fromordinal n = Inr \<lparr>year = y, month = m, day = d\<rparr>"
    using assms(1) ymd date_new_ok[OF yr p(1-4)] by (simp add: fromordinal_def)
  moreover have "valid_date \<lparr>year = y, month = m, day = d\<rparr>"
    using yr p by (simp add: valid_date_def)
  moreover have "toordinal \<lparr>year = y, month = m, day = d\<rparr> = n"
    using p(5) by (simp add: toordinal_def)
  ultimately show ?thesis by blast
qed

lemma fromordinal_toordinal:
  assumes "valid_date D"
  shows "fromordinal (toordinal D) = Inr D"
proof -
  from fromordinal_ok[OF toordinal_bounds[OF assms]] obtain D' where
    D': "fromordinal (toordinal D) = Inr D'" "valid_date D'" "toordinal D' = toordinal D"
    by blast
  then have "D' = D" using toordinal_inj[OF D'(2) assms] by simp
  then show ?thesis using D'(1) by simp
qed

lemma fromordinal_out_of_range:
  assumes "n < 1 \<or> MAXORDINAL < n"
  shows "\<exists>e. fromordinal n = Inl e"
proof (cases "fits_C_int n \<and> 1 \<le> n")
  case False
  then show ?thesis by (auto simp: fromordinal_def)
next
  case True
  then have big: "MAXORDINAL < n" using assms by simp
  obtain y m d where ymd: "ord2ymd n = (y, m, d)" by (cases "ord2ymd n") auto
  from ord2ymd_correct[of n] ymd
  have p: "1 \<le> m" "m \<le> 12" "1 \<le> d" "d \<le> days_in_month y m" "ymd2ord y m d = n"
    by simp_all
  have "\<not> y \<le> MAXYEAR"
  proof
    assume "y \<le> MAXYEAR"
    then have "y * 12 + m + 1 \<le> 120001" using p(2) by (simp add: MAXYEAR_def)
    then have "month_first_ord (y * 12 + m + 1) \<le> 3652060"
      using month_first_ord_mono[of "y * 12 + m + 1" 120001]
      by (simp add: month_first_ord_consts)
    then show False using ymd2ord_range(2)[OF p(1-4)] p(5) big by (simp add: MAXORDINAL_def)
  qed
  then have "\<exists>e. date_new y m d = Inl e" by (simp add: date_new_def)
  then show ?thesis using True ymd by (simp add: fromordinal_def)
qed

section \<open>Month advance: claims C1 and C10\<close>

lemma month_advance_general:
  assumes "valid_date D"
    and "MINYEAR * 12 + 1 \<le> month_index D + n" and "month_index D + n \<le> MAXYEAR * 12 + 12"
  shows "\<exists>R. addmonths4date D n = Inr R \<and> add_months D n = Inr R \<and> valid_date R \<and>
           month_index R = month_index D + n \<and>
           day R = min (day D) (days_in_month (year R) (month R)) \<and>
           year R = year D + (month D - 1 + n) div 12 \<and>
           month R = (month D - 1 + n) mod 12 + 1"
proof -
  let ?y = "year D + (month D - 1 + n) div 12"
  let ?m = "(month D - 1 + n) mod 12 + 1"
  let ?R = "\<lparr>year = ?y, month = ?m, day = min (day D) (days_in_month ?y ?m)\<rparr>"
  note r = addmonths4date_result[OF assms]
  have "1 \<le> day D" using assms(1) by (simp add: valid_date_def)
  then have "valid_date ?R"
    using r(2-5) days_in_month_bounds(1)[OF r(4,5), of ?y] by (simp add: valid_date_def)
  moreover have "month_index ?R = month_index D + n"
    using r(6) by (simp add: month_index_def)
  ultimately show ?thesis
    using r(1) by (simp add: add_months_eq)
qed

text \<open>
  Claim C1, with the bound it needs. For a valid date \<open>D\<close> and a count \<open>n \<ge> 0\<close> of months
  such that the month reached is not after December 9999, both month-advance functions
  return the same valid date \<open>R\<close>; its month index is that of \<open>D\<close> plus \<open>n\<close>, its day is
  the day of \<open>D\<close> cut down to the length of the month reached, and its year is the year
  of \<open>D\<close> plus the number of Decembers passed.
\<close>

theorem month_advance_nonneg:
  assumes "valid_date D" and "0 \<le> n" and "month_index D + n \<le> MAXYEAR * 12 + 12"
  shows "\<exists>R. addmonths4date D n = Inr R \<and> add_months D n = Inr R \<and> valid_date R \<and>
           month_index R = month_index D + n \<and>
           day R = min (day D) (days_in_month (year R) (month R)) \<and>
           year R = year D + (month D - 1 + n) div 12 \<and>
           month R = (month D - 1 + n) mod 12 + 1"
proof -
  have "MINYEAR * 12 + 1 \<le> month_index D"
    using assms(1) by (simp add: valid_date_def month_index_def MINYEAR_def)
  then have "MINYEAR * 12 + 1 \<le> month_index D + n" using assms(2) by simp
  then show ?thesis using month_advance_general[OF assms(1) _ assms(3)] by blast
qed

theorem month_advance_nonneg_witness:
  "valid_date \<lparr>year = 2020, month = 1, day = 31\<rparr> \<and> (0::int) \<le> 1 \<and>
   month_index \<lparr>year = 2020, month = 1, day = 31\<rparr> + 1 \<le> MAXYEAR * 12 + 12 \<and>
   addmonths4date \<lparr>year = 2020, month = 1, day = 31\<rparr> 1 = Inr \<lparr>year = 2020, month = 2, day = 29\<rparr> \<and>
   (\<exists>R. addmonths4date \<lparr>year = 2020, month = 1, day = 31\<rparr> 1 = Inr R \<and>
        add_months \<lparr>year = 2020, month = 1, day = 31\<rparr> 1 = Inr R \<and> valid_date R \<and>
        month_index R = month_index \<lparr>year = 2020, month = 1, day = 31\<rparr> + 1)"
proof -
  let ?D = "\<lparr>year = 2020, month = 1, day = 31\<rparr>"
  have h1: "valid_date ?D"
    by (simp add: valid_date_def MINYEAR_def MAXYEAR_def days_in_month_def DAYS_IN_MONTH_def)
  have h2: "(0::int) \<le> 1" by simp
  have h3: "month_index ?D + 1 \<le> MAXYEAR * 12 + 12"
    by (simp add: month_index_def MAXYEAR_def)
  have "monthrange 2020 2 = Inr 29"
    by (simp add: monthrange_def mdays_def isleap_def)
  moreover have "date_new 2020 2 29 = Inr \<lparr>year = 2020, month = 2, day = 29\<rparr>"
    by (rule date_new_ok) (simp_all add: MINYEAR_def MAXYEAR_def days_in_month_def isleap_def)
  ultimately have e: "addmonths4date ?D 1 = Inr \<lparr>year = 2020, month = 2, day = 29\<rparr>"
    by (simp add: addmonths4date_def)
  from month_advance_nonneg[OF h1 h2 h3] show ?thesis using h1 h2 h3 e by blast
qed

text \<open>
  Without the bound the date constructor refuses the result: one month after
  1 December 9999 is a \<^verbatim>\<open>ValueError\<close>, not a date.
\<close>

theorem month_advance_past_MAXYEAR:
  "valid_date \<lparr>year = 9999, month = 12, day = 1\<rparr> \<and> (0::int) \<le> 1 \<and>
   addmonths4date \<lparr>year = 9999, month = 12, day = 1\<rparr> 1 = Inl ValueError \<and>
   add_months \<lparr>year = 9999, month = 12, day = 1\<rparr> 1 = Inl ValueError"
proof -
  have "valid_date \<lparr>year = 9999, month = 12, day = 1\<rparr>"
    by (simp add: valid_date_def MINYEAR_def MAXYEAR_def days_in_month_def DAYS_IN_MONTH_def)
  moreover have "monthrange 10000 1 = Inr 31"
    by (simp add: monthrange_def mdays_def)
  moreover have "date_new 10000 1 1 = Inl ValueError"
    by (simp add: date_new_def fits_C_int_def MINYEAR_def MAXYEAR_def)
  ultimately show ?thesis
    by (simp add: addmonths4date_def add_months_def)
qed

text \<open>
  Claim C10, with the bounds it needs. For a valid date \<open>D\<close> and any integer count \<open>n\<close>,
  negative ones included, such that the month reached lies between January 1 and
  December 9999, floor division and modulo give a month in 1..12 and a year with
  \<open>year * 12 + month\<close> equal to that of \<open>D\<close> plus \<open>n\<close>, and the day is cut down to the length of
  the month reached.
\<close>

theorem month_advance_any_count:
  assumes "valid_date D"
    and "MINYEAR * 12 + 1 \<le> month_index D + n" and "month_index D + n \<le> MAXYEAR * 12 + 12"
  shows "\<exists>R. addmonths4date D n = Inr R \<and> add_months D n = Inr R \<and>
           1 \<le> month R \<and> month R \<le> 12 \<and>
           year R * 12 + month R = year D * 12 + month D + n \<and>
           year R = year D + (month D - 1 + n) div 12 \<and>
           month R = (month D - 1 + n) mod 12 + 1 \<and>
           day R = min (day D) (days_in_month (year R) (month R)) \<and> valid_date R"
proof -
  from month_advance_general[OF assms] obtain R where
    R: "addmonths4date D n = Inr R" "add_months D n = Inr R" "valid_date R"
      "month_index R = month_index D + n"
      "day R = min (day D) (days_in_month (year R) (month R))"
      "year R = year D + (month D - 1 + n) div 12"
      "month R = (month D - 1 + n) mod 12 + 1"
    by blast
  have "1 \<le> month R \<and> month R \<le> 12" using R(3) by (simp add: valid_date_def)
  moreover have "year R * 12 + month R = year D * 12 + month D + n"
    using R(4) by (simp add: month_index_def)
  ultimately show ?thesis using R by blast
qed

theorem month_advance_any_count_witness:
  "valid_date \<lparr>year = 2020, month = 1, day = 31\<rparr> \<and>
   MINYEAR * 12 + 1 \<le> month_index \<lparr>year = 2020, month = 1, day = 31\<rparr> + (- 3) \<and>
   month_index \<lparr>year = 2020, month = 1, day = 31\<rparr> + (- 3) \<le> MAXYEAR * 12 + 12 \<and>
   add_months \<lparr>year = 2020, month = 1, day = 31\<rparr> (- 3) = Inr \<lparr>year = 2019, month = 10, day = 31\<rparr> \<and>
   (\<exists>R. addmonths4date \<lparr>year = 2020, month = 1, day = 31\<rparr> (- 3) = Inr R \<and>
        add_months \<lparr>year = 2020, month = 1, day = 31\<rparr> (- 3) = Inr R \<and>
        year R * 12 + month R = 2020 * 12 + 1 + (- 3) \<and> valid_date R)"
proof -
  let ?D = "\<lparr>year = 2020, month = 1, day = 31\<rparr>"
  have h1: "valid_date ?D"
    by (simp add: valid_date_def MINYEAR_def MAXYEAR_def days_in_month_def DAYS_IN_MONTH_def)
  have h2: "MINYEAR * 12 + 1 \<le> month_index ?D + (- 3)"
    by (simp add: month_index_def MINYEAR_def)
  have h3: "month_index ?D + (- 3) \<le> MAXYEAR * 12 + 12"
    by (simp add: month_index_def MAXYEAR_def)
  have "monthrange 2019 10 = Inr 31"
    by (simp add: monthrange_def mdays_def)
  moreover have "date_new 2019 10 31 = Inr \<lparr>year = 2019, month = 10, day = 31\<rparr>"
    by (rule date_new_ok)
      (simp_all add: MINYEAR_def MAXYEAR_def days_in_month_def DAYS_IN_MONTH_def)
  ultimately have e: "add_months ?D (- 3) = Inr \<lparr>year = 2019, month = 10, day = 31\<rparr>"
    by (simp add: add_months_def)
  from month_advance_any_count[OF h1 h2 h3] obtain R where
    "addmonths4date ?D (- 3) = Inr R" "add_months ?D (- 3) = Inr R"
    "year R * 12 + month R = year ?D * 12 + month ?D + (- 3)" "valid_date R"
    by blast
  then have "\<exists>R. addmonths4date ?D (- 3) = Inr R \<and> add_months ?D (- 3) = Inr R \<and>
        year R * 12 + month R = 2020 * 12 + 1 + (- 3) \<and> valid_date R"
    by auto
  then show ?thesis using h1 h2 h3 e by blast
qed

text \<open>
  Without the lower bound: one month before 1 January of year 1 is year 0, which the
  date constructor refuses.
\<close>

theorem month_advance_before_MINYEAR:
  "valid_date \<lparr>year = 1, month = 1, day = 1\<rparr> \<and>
   add_months \<lparr>year = 1, month = 1, day = 1\<rparr> (- 1) = Inl ValueError \<and>
   addmonths4date \<lparr>year = 1, month = 1, day = 1\<rparr> (- 1) = Inl ValueError"
proof -
  have "valid_date \<lparr>year = 1, month = 1, day = 1\<rparr>"
    by (simp add: valid_date_def MINYEAR_def MAXYEAR_def days_in_month_def DAYS_IN_MONTH_def)
  moreover have "monthrange 0 12 = Inr 31"
    by (simp add: monthrange_def mdays_def)
  moreover have "date_new 0 12 1 = Inl ValueError"
    by (simp add: date_new_def fits_C_int_def MINYEAR_def MAXYEAR_def)
  ultimately show ?thesis
    by (simp add: addmonths4date_def add_months_def)
qed

section \<open>Request assembly: claims C4, C5 and C9\<close>

lemma request_main_options:
  "rq_options (request_main uu vname vlong vlevt dt hours varea dir y m) =
     (let base = [''product_type'' \<mapsto> Str ''reanalysis'', ''type'' \<mapsto> Str ''an'',
                  ''date'' \<mapsto> Str dt, ''variable'' \<mapsto> Str vlong,
                  ''levtype'' \<mapsto> Str vlevt, ''area'' \<mapsto> IntList varea,
                  ''format'' \<mapsto> Str ''netcdf'',
                  ''time'' \<mapsto> Str (if vlong = ''sea_surface_temperature'' then ''12'' else hours)]
      in if vlong = ''specific_humidity'' \<or> vlong = ''relative_humidity''
         then base(''pressure_level'' \<mapsto> Str ''1000'') else base)"
  by (simp add: request_main_def Let_def)

lemma request_analysis_options:
  "rq_options (request_analysis vname vlevt vabbr dt hours varea dir y m) =
     (let base = [''product_type'' \<mapsto> Str ''reanalysis'', ''type'' \<mapsto> Str ''an'',
                  ''date'' \<mapsto> Str dt, ''variable'' \<mapsto> Str vname,
                  ''levtype'' \<mapsto> Str vlevt, ''area'' \<mapsto> IntList varea,
                  ''format'' \<mapsto> Str ''netcdf'',
                  ''time'' \<mapsto> Str (if vname = ''sea_surface_temperature'' then ''12'' else hours)]
      in if vname = ''specific_humidity'' \<or> vname = ''relative_humidity''
         then base(''pressure_level'' \<mapsto> Str ''1000'') else base)"
  by (simp add: request_analysis_def Let_def)

lemma request_main_product:
  "rq_product (request_main uu vname vlong vlevt dt hours varea dir y m) =
     (if vlong = ''specific_humidity'' \<or> vlong = ''relative_humidity''
      then ''reanalysis-era5-pressure-levels'' else ''reanalysis-era5-single-levels'')"
  by (simp add: request_main_def Let_def)

lemma request_analysis_product:
  "rq_product (request_analysis vname vlevt vabbr dt hours varea dir y m) =
     (if vname = ''specific_humidity'' \<or> vname = ''relative_humidity''
      then ''reanalysis-era5-pressure-levels'' else ''reanalysis-era5-single-levels'')"
  by (simp add: request_analysis_def Let_def)

lemma request_main_output:
  "rq_output (request_main uu vname vlong vlevt dt hours varea dir y m) =
     dir @ ''/'' @ fname_main uu vname y m"
  by (simp add: request_main_def Let_def split: prod.splits)

lemma request_analysis_output:
  "rq_output (request_analysis vname vlevt vabbr dt hours varea dir y m) =
     dir @ ''/'' @ fname_analysis vabbr y m"
  by (simp add: request_analysis_def Let_def split: prod.splits)

text \<open>
  Claim C4. In every assembled request of either script, the field \<^verbatim>\<open>time\<close> is the
  single hour \<^verbatim>\<open>'12'\<close> when the canonical variable name is
  \<^verbatim>\<open>sea_surface_temperature\<close>, whatever the configured hours are, and the configured
  hours for every other name.
\<close>

theorem sampling_hours:
  "(vlong = ''sea_surface_temperature'' \<longrightarrow>
      rq_options (request_main uu vname vlong vlevt dt hours varea dir y m) ''time'' = Some (Str ''12'') \<and>
      rq_options (request_analysis vlong vlevt vabbr dt hours varea dir y m) ''time'' = Some (Str ''12'')) \<and>
   (vlong \<noteq> ''sea_surface_temperature'' \<longrightarrow>
      rq_options (request_main uu vname vlong vlevt dt hours varea dir y m) ''time'' = Some (Str hours) \<and>
      rq_options (request_analysis vlong vlevt vabbr dt hours varea dir y m) ''time'' = Some (Str hours))"
  by (simp add: request_main_options request_analysis_options Let_def)

theorem sampling_hours_witness:
  "''sea_surface_temperature'' = ''sea_surface_temperature'' \<and>
   rq_options (request_main leave_unicode ''sst'' ''sea_surface_temperature'' ''sfc'' ''2020-10-31/2020-12-01''
      ''00/06/12/18'' [-30, -80, -40, -70] ''/home/u/ERA5'' 2020 11) ''time'' = Some (Str ''12'') \<and>
   ''2m_temperature'' \<noteq> ''sea_surface_temperature'' \<and>
   rq_options (request_analysis ''2m_temperature'' ''sfc'' ''T2M'' ''2020-10-31/2020-12-01''
      ''00/06/12/18'' [-30, -80, -40, -70] ''/home/u/ERA5_analysis'' 2020 11) ''time'' =
     Some (Str ''00/06/12/18'')"
proof -
  have a: "''sea_surface_temperature'' = ''sea_surface_temperature''" by simp
  have b: "''2m_temperature'' \<noteq> ''sea_surface_temperature''" by simp
  from
    sampling_hours[where vlong = "''sea_surface_temperature''" and vname = "''sst''"
      and vlevt = "''sfc''" and dt = "''2020-10-31/2020-12-01''" and hours = "''00/06/12/18''"
      and varea = "[-30, -80, -40, -70]" and dir = "''/home/u/ERA5''" and y = 2020 and m = 11]
    sampling_hours[where vlong = "''2m_temperature''" and vabbr = "''T2M''"
      and vlevt = "''sfc''" and dt = "''2020-10-31/2020-12-01''" and hours = "''00/06/12/18''"
      and varea = "[-30, -80, -40, -70]" and dir = "''/home/u/ERA5_analysis''" and y = 2020 and m = 11]
  show ?thesis by simp
qed

text \<open>
  Claim C5. In every assembled request of either script, the canonical names
  \<^verbatim>\<open>specific_humidity\<close> and \<^verbatim>\<open>relative_humidity\<close> get the field \<^verbatim>\<open>pressure_level\<close>
  with value \<^verbatim>\<open>'1000'\<close> and the pressure-level product; every other name gets the
  single-level product and no field \<^verbatim>\<open>pressure_level\<close>.
\<close>

theorem pressure_level:
  "(vlong = ''specific_humidity'' \<or> vlong = ''relative_humidity'' \<longrightarrow>
      rq_options (request_main uu vname vlong vlevt dt hours varea dir y m) ''pressure_level'' = Some (Str ''1000'') \<and>
      rq_product (request_main uu vname vlong vlevt dt hours varea dir y m) = ''reanalysis-era5-pressure-levels'' \<and>
      rq_options (request_analysis vlong vlevt vabbr dt hours varea dir y m) ''pressure_level'' = Some (Str ''1000'') \<and>
      rq_product (request_analysis vlong vlevt vabbr dt hours varea dir y m) = ''reanalysis-era5-pressure-levels'') \<and>
   (\<not> (vlong = ''specific_humidity'' \<or> vlong = ''relative_humidity'') \<longrightarrow>
      rq_options (request_main uu vname vlong vlevt dt hours varea dir y m) ''pressure_level'' = None \<and>
      rq_product (request_main uu vname vlong vlevt dt hours varea dir y m) = ''reanalysis-era5-single-levels'' \<and>
      rq_options (request_analysis vlong vlevt vabbr dt hours varea dir y m) ''pressure_level'' = None \<and>
      rq_product (request_analysis vlong vlevt vabbr dt hours varea dir y m) = ''reanalysis-era5-single-levels'')"
  by (simp add: request_main_options request_analysis_options request_main_product
      request_analysis_product Let_def)

theorem pressure_level_witness:
  "(''specific_humidity'' = ''specific_humidity'' \<or> ''specific_humidity'' = ''relative_humidity'') \<and>
   rq_options (request_main leave_unicode ''q'' ''specific_humidity'' ''pl'' ''2020-10-31/2020-12-01''
      ''00/06/12/18'' [-30, -80, -40, -70] ''/home/u/ERA5'' 2020 11) ''pressure_level'' = Some (Str ''1000'') \<and>
   rq_product (request_main leave_unicode ''q'' ''specific_humidity'' ''pl'' ''2020-10-31/2020-12-01''
      ''00/06/12/18'' [-30, -80, -40, -70] ''/home/u/ERA5'' 2020 11) = ''reanalysis-era5-pressure-levels'' \<and>
   \<not> (''2m_temperature'' = ''specific_humidity'' \<or> ''2m_temperature'' = ''relative_humidity'') \<and>
   rq_options (request_analysis ''2m_temperature'' ''sfc'' ''T2M'' ''2020-10-31/2020-12-01''
      ''00/06/12/18'' [-30, -80, -40, -70] ''/home/u/ERA5_analysis'' 2020 11) ''pressure_level'' = None \<and>
   rq_product (request_analysis ''2m_temperature'' ''sfc'' ''T2M'' ''2020-10-31/2020-12-01''
      ''00/06/12/18'' [-30, -80, -40, -70] ''/home/u/ERA5_analysis'' 2020 11) = ''reanalysis-era5-single-levels''"
proof -
  have a: "''specific_humidity'' = ''specific_humidity'' \<or> ''specific_humidity'' = ''relative_humidity''"
    by simp
  have b: "\<not> (''2m_temperature'' = ''specific_humidity'' \<or> ''2m_temperature'' = ''relative_humidity'')"
    by simp
  from
    pressure_level[where vlong = "''specific_humidity''" and vname = "''q''"
      and vlevt = "''pl''" and dt = "''2020-10-31/2020-12-01''" and hours = "''00/06/12/18''"
      and varea = "[-30, -80, -40, -70]" and dir = "''/home/u/ERA5''" and y = 2020 and m = 11]
    pressure_level[where vlong = "''2m_temperature''" and vabbr = "''T2M''"
      and vlevt = "''sfc''" and dt = "''2020-10-31/2020-12-01''" and hours = "''00/06/12/18''"
      and varea = "[-30, -80, -40, -70]" and dir = "''/home/u/ERA5_analysis''" and y = 2020 and m = 11]
  show ?thesis by simp
qed

text \<open>
  Claim C9. Given the same canonical name, level type, date window, hours and area, the
  two scripts build the same dictionary of options and choose the same product. They
  differ in the output path only: the directory, and the name part of the file, which
  is the uppercased identifier in one script and the abbreviation in the other.
\<close>

theorem assemblers_agree:
  "rq_options (request_main uu vname vlong vlevt dt hours varea dir y m) =
     rq_options (request_analysis vlong vlevt vabbr dt hours varea dir' y' m') \<and>
   rq_product (request_main uu vname vlong vlevt dt hours varea dir y m) =
     rq_product (request_analysis vlong vlevt vabbr dt hours varea dir' y' m') \<and>
   rq_output (request_main uu vname vlong vlevt dt hours varea dir y m) =
     dir @ ''/'' @ fname_main uu vname y m \<and>
   rq_output (request_analysis vlong vlevt vabbr dt hours varea dir' y' m') =
     dir' @ ''/'' @ fname_analysis vabbr y' m' \<and>
   fname_main uu vname y m = fname_analysis (upper uu vname) y m"
  by (simp add: request_main_options request_analysis_options request_main_product
      request_analysis_product request_main_output request_analysis_output
      fname_main_def fname_analysis_def)

section \<open>Decimal strings\<close>

lemma digit_char_inj:
  assumes "i < 10" "j < 10" "digit_char i = digit_char j"
  shows "i = j"
proof -
  have "distinct ''0123456789''" by simp
  moreover have "i < length ''0123456789''" "j < length ''0123456789''" using assms by simp_all
  ultimately show ?thesis using assms(3) unfolding digit_char_def
    by (simp only: nth_eq_iff_index_eq)
qed

lemma digit_char_in:
  assumes "i < 10"
  shows "digit_char i \<in> set ''0123456789''"
proof -
  have "i < length ''0123456789''" using assms by simp
  then show ?thesis unfolding digit_char_def by (rule nth_mem)
qed

lemma digits_small: "n < 10 \<Longrightarrow> digits n = [digit_char n]"
  by (subst digits.simps) simp

lemma digits_large: "\<not> n < 10 \<Longrightarrow> digits n = digits (n div 10) @ [digit_char (n mod 10)]"
  by (subst digits.simps) simp

lemma digits_set: "set (digits n) \<subseteq> set ''0123456789''"
proof (induction n rule: digits.induct)
  case (1 n)
  show ?case
  proof (cases "n < 10")
    case True
    then show ?thesis using digit_char_in[of n] by (simp only: digits_small) simp
  next
    case False
    have "digit_char (n mod 10) \<in> set ''0123456789''" by (rule digit_char_in) simp
    then show ?thesis using 1[OF False] by (simp only: digits_large[OF False]) simp
  qed
qed

lemma digits_not_Nil: "digits n \<noteq> []"
  by (cases "n < 10") (simp_all add: digits_small digits_large)

lemma digits_inj: "digits n = digits n' \<Longrightarrow> n = n'"
proof (induction n arbitrary: n' rule: digits.induct)
  case (1 n)
  show ?case
  proof (cases "n < 10")
    case True
    show ?thesis
    proof (cases "n' < 10")
      case n': True
      then show ?thesis using "1.prems" True digit_char_inj[of n n']
        by (simp add: digits_small)
    next
      case False
      then show ?thesis using "1.prems" True digits_not_Nil[of "n' div 10"]
        by (simp add: digits_small digits_large)
    qed
  next
    case False
    show ?thesis
    proof (cases "n' < 10")
      case True
      then show ?thesis using "1.prems" False digits_not_Nil[of "n div 10"]
        by (simp add: digits_small digits_large)
    next
      case n': False
      from "1.prems" have "digits (n div 10) = digits (n' div 10)"
        and "digit_char (n mod 10) = digit_char (n' mod 10)"
        by (simp_all add: digits_large False n')
      then have "n div 10 = n' div 10" "n mod 10 = n' mod 10"
        using "1.IH"[OF False] digit_char_inj[of "n mod 10" "n' mod 10"] by simp_all
      then show ?thesis by (metis div_mult_mod_eq)
    qed
  qed
qed

lemma digits_two:
  assumes "n < 100"
  shows "zfill 2 (digits n) = [digit_char (n div 10), digit_char (n mod 10)]"
proof (cases "n < 10")
  case True
  have "digit_char n \<in> set ''0123456789''" by (rule digit_char_in[OF True])
  then have "digit_char n \<noteq> CHR ''+''" "digit_char n \<noteq> CHR ''-''" by auto
  moreover have "digit_char 0 = CHR ''0''" by (simp add: digit_char_def)
  ultimately show ?thesis using True by (simp add: digits_small zfill_def)
next
  case False
  then have "n div 10 < 10" using assms by simp
  then show ?thesis using False by (simp add: digits_large digits_small zfill_def)
qed

lemma digits_four:
  assumes "1000 \<le> n" "n < 10000"
  shows "digits n = [digit_char (n div 1000), digit_char (n div 100 mod 10),
                     digit_char (n div 10 mod 10), digit_char (n mod 10)]"
proof -
  have a: "\<not> n < 10" "\<not> n div 10 < 10" "\<not> n div 10 div 10 < 10" "n div 10 div 10 div 10 < 10"
    using assms by simp_all
  have "digits n = digits (n div 10 div 10 div 10) @ [digit_char (n div 10 div 10 mod 10),
      digit_char (n div 10 mod 10), digit_char (n mod 10)]"
    by (simp add: digits_large[OF a(1)] digits_large[OF a(2)] digits_large[OF a(3)])
  moreover have "n div 10 div 10 = n div 100"
    using div_mult2_eq[of n 10 10] by simp
  moreover have "n div 10 div 10 div 10 = n div 1000"
    using div_mult2_eq[of n 10 10] div_mult2_eq[of n 100 10] by simp
  ultimately show ?thesis using digits_small[OF a(4)] by simp
qed

lemma split_at_last:
  assumes "c \<notin> set s" "c \<notin> set s'" "xs @ c # s = xs' @ c # s'"
  shows "xs = xs' \<and> s = s'"
proof -
  have t: "takeWhile (\<lambda>x. x \<noteq> c) (rev u @ c # rev v) = rev u" if "c \<notin> set u" for u v
  proof -
    have "takeWhile (\<lambda>x. x \<noteq> c) (rev u @ c # rev v) =
        rev u @ takeWhile (\<lambda>x. x \<noteq> c) (c # rev v)"
      by (rule takeWhile_append2) (use that in auto)
    then show ?thesis by simp
  qed
  have "rev (xs @ c # s) = rev (xs' @ c # s')" using assms(3) by simp
  then have "rev s @ c # rev xs = rev s' @ c # rev xs'" by simp
  then have "takeWhile (\<lambda>x. x \<noteq> c) (rev s @ c # rev xs) =
      takeWhile (\<lambda>x. x \<noteq> c) (rev s' @ c # rev xs')"
    by (rule arg_cong)
  then have "rev s = rev s'" using t[OF assms(1)] t[OF assms(2)] by simp
  then have "s = s'" by simp
  then show ?thesis using assms(3) by simp
qed

lemma str_nonneg: "0 \<le> i \<Longrightarrow> str i = digits (nat i)"
  by (simp add: str_def)

lemma month_str:
  assumes "1 \<le> m" "m \<le> 12"
  shows "zfill 2 (str m) = [digit_char (nat m div 10), digit_char (nat m mod 10)]"
  using assms by (simp add: str_nonneg digits_two)




section \<open>The worked example, evaluated\<close>

lemma fromordinal_eval:
  "fromordinal 737729 = Inr \<lparr>year = 2020, month = 10, day = 31\<rparr>"
  "fromordinal 737760 = Inr \<lparr>year = 2020, month = 12, day = 1\<rparr>"
proof -
  have "ord2ymd 737729 = (2020, 10, 31)" "ord2ymd 737760 = (2020, 12, 1)"
    by code_simp+
  moreover have "date_new 2020 10 31 = Inr \<lparr>year = 2020, month = 10, day = 31\<rparr>"
    "date_new 2020 12 1 = Inr \<lparr>year = 2020, month = 12, day = 1\<rparr>"
    by (rule date_new_ok; simp add: MINYEAR_def MAXYEAR_def days_in_month_def DAYS_IN_MONTH_def)+
  ultimately show "fromordinal 737729 = Inr \<lparr>year = 2020, month = 10, day = 31\<rparr>"
    "fromordinal 737760 = Inr \<lparr>year = 2020, month = 12, day = 1\<rparr>"
    by (simp_all add: fromordinal_def fits_C_int_def)
qed

lemma strftime_eval:
  "strftime \<lparr>year = 2020, month = 10, day = 31\<rparr> = ''2020-10-31''"
  "strftime \<lparr>year = 2020, month = 12, day = 1\<rparr> = ''2020-12-01''"
  by code_simp+

lemma month_window_nov2020:
  "month_window \<lparr>year = 2020, month = 11, day = 1\<rparr> 1 = Inr nov2020"
proof -
  have "monthrange 2020 11 = Inr 30"
    by (simp add: monthrange_def mdays_def)
  moreover have "date_new 2020 11 1 = Inr \<lparr>year = 2020, month = 11, day = 1\<rparr>"
    "date_new 2020 11 30 = Inr \<lparr>year = 2020, month = 11, day = 30\<rparr>"
    by (rule date_new_ok; simp add: MINYEAR_def MAXYEAR_def days_in_month_def DAYS_IN_MONTH_def)+
  moreover have "toordinal \<lparr>year = 2020, month = 11, day = 1\<rparr> = 737730"
    "toordinal \<lparr>year = 2020, month = 11, day = 30\<rparr> = 737759"
    by (simp_all add: toordinal_def ymd2ord_def days_before_year_def days_before_month_def
        DAYS_BEFORE_MONTH_def isleap_def)
  ultimately show ?thesis
    by (simp add: month_window_def fromordinal_eval strftime_eval nov2020_def)
qed




section \<open>Unknown identifiers: claim C7\<close>

lemma variables_loop_stops:
  "variables_loop step pre = (rs, None) \<Longrightarrow> step v = Inl err \<Longrightarrow>
   variables_loop step (pre @ v # post) = (rs, Some err)"
proof (induction pre arbitrary: rs)
  case Nil
  then show ?case by simp
next
  case (Cons u pre)
  then show ?case by (auto split: sum.splits prod.splits)
qed

lemma monthly_loop_stops:
  assumes "month_window d V = Inr w"
    and "variables_loop (step (year d) (month d) (vdate w)) vars = (rs, Some err)"
  shows "monthly_loop adv step V vars (Suc j) d = ([(w, rs)], Some err)"
  using assms by simp

text \<open>
  Claim C7. An identifier \<open>v\<close> that the table does not hold makes the variable step of
  either script raise \<^verbatim>\<open>KeyError(v)\<close>, a \<^verbatim>\<open>LookupError\<close> that carries the identifier,
  and never a request. In the loops the exception comes up in the first month, right
  after the requests of the identifiers before \<open>v\<close> in the list: no request is built for
  \<open>v\<close> or for what follows it.
\<close>

theorem unknown_variable_raises:
  assumes "era5 v = None"
    and "month_window d V = Inr w"
    and "variables_loop (variable_step_main retrieve uu era5 cfg dir (year d) (month d) (vdate w)) pre = (rs, None)"
    and "variables_loop (variable_step_analysis retrieve era5 cfg dir' (year d) (month d) (vdate w)) pre = (rs', None)"
  shows "variable_step_main retrieve uu era5 cfg dir y m dt v = Inl (KeyError v) \<and>
         variable_step_analysis retrieve era5 cfg dir' y m dt v = Inl (KeyError v) \<and>
         is_LookupError (KeyError v) \<and>
         variables_loop (variable_step_main retrieve uu era5 cfg dir (year d) (month d) (vdate w)) (pre @ v # post)
           = (rs, Some (KeyError v)) \<and>
         variables_loop (variable_step_analysis retrieve era5 cfg dir' (year d) (month d) (vdate w)) (pre @ v # post)
           = (rs', Some (KeyError v)) \<and>
         monthly_loop adv (variable_step_main retrieve uu era5 cfg dir) V (pre @ v # post) (Suc j) d
           = ([(w, rs)], Some (KeyError v)) \<and>
         monthly_loop adv' (variable_step_analysis retrieve era5 cfg dir') V (pre @ v # post) (Suc j) d
           = ([(w, rs')], Some (KeyError v))"
proof -
  have m: "\<And>y m dt. variable_step_main retrieve uu era5 cfg dir y m dt v = Inl (KeyError v)"
    using assms(1) by (simp add: variable_step_main_def)
  have a: "\<And>y m dt. variable_step_analysis retrieve era5 cfg dir' y m dt v = Inl (KeyError v)"
    using assms(1) by (simp add: variable_step_analysis_def)
  note lm = variables_loop_stops[OF assms(3) m, of post]
  note la = variables_loop_stops[OF assms(4) a, of post]
  have "monthly_loop adv (variable_step_main retrieve uu era5 cfg dir) V (pre @ v # post) (Suc j) d
           = ([(w, rs)], Some (KeyError v))"
    by (rule monthly_loop_stops[where step = "variable_step_main retrieve uu era5 cfg dir", OF assms(2) lm])
  moreover have "monthly_loop adv' (variable_step_analysis retrieve era5 cfg dir') V (pre @ v # post) (Suc j) d
           = ([(w, rs')], Some (KeyError v))"
    by (rule monthly_loop_stops[where step = "variable_step_analysis retrieve era5 cfg dir'", OF assms(2) la])
  ultimately show ?thesis
    using m a lm la by simp
qed

lemma example_step_sst:
  "variable_step_main client_returns leave_unicode example_table example_config dir y m dt ''sst'' =
     Inr (request_main leave_unicode ''sst'' ''sea_surface_temperature'' ''sfc'' dt ''00/06/12/18''
            [-30, -80, -40, -70] dir y m)"
  "variable_step_analysis client_returns example_table example_config dir y m dt ''sst'' =
     Inr (request_analysis ''sst'' ''sfc'' ''SST'' dt ''00/06/12/18''
            [-30, -80, -40, -70] dir y m)"
  by (simp_all add: variable_step_main_def variable_step_analysis_def example_table_def
      example_config_def getitem_def client_returns_def)

theorem unknown_variable_raises_witness:
  "example_table ''t2m'' = None \<and>
   month_window \<lparr>year = 2020, month = 11, day = 1\<rparr> 1 = Inr nov2020 \<and>
   monthly_loop (\<lambda>d. addmonths4date d 1) (variable_step_main client_returns leave_unicode example_table example_config ''/home/u/ERA5'')
     1 ([''sst''] @ ''t2m'' # [''q'']) (Suc 1) \<lparr>year = 2020, month = 11, day = 1\<rparr> =
     ([(nov2020, [request_main leave_unicode ''sst'' ''sea_surface_temperature'' ''sfc'' ''2020-10-31/2020-12-01''
            ''00/06/12/18'' [-30, -80, -40, -70] ''/home/u/ERA5'' 2020 11])], Some (KeyError ''t2m'')) \<and>
   monthly_loop (\<lambda>d. add_months d 1) (variable_step_analysis client_returns example_table example_config ''/home/u/ERA5_analysis'')
     1 ([''sst''] @ ''t2m'' # [''q'']) (Suc 1) \<lparr>year = 2020, month = 11, day = 1\<rparr> =
     ([(nov2020, [request_analysis ''sst'' ''sfc'' ''SST'' ''2020-10-31/2020-12-01''
            ''00/06/12/18'' [-30, -80, -40, -70] ''/home/u/ERA5_analysis'' 2020 11])], Some (KeyError ''t2m''))"
proof -
  let ?d = "\<lparr>year = 2020, month = 11, day = 1\<rparr>"
  have h1: "example_table ''t2m'' = None" by (simp add: example_table_def)
  note h2 = month_window_nov2020
  have v: "vdate nov2020 = ''2020-10-31/2020-12-01''" by (simp add: nov2020_def)
  have h3: "variables_loop (variable_step_main client_returns leave_unicode example_table example_config ''/home/u/ERA5''
         (year ?d) (month ?d) (vdate nov2020)) [''sst''] =
       ([request_main leave_unicode ''sst'' ''sea_surface_temperature'' ''sfc'' ''2020-10-31/2020-12-01''
            ''00/06/12/18'' [-30, -80, -40, -70] ''/home/u/ERA5'' 2020 11], None)"
    by (simp add: example_step_sst v)
  have h4: "variables_loop (variable_step_analysis client_returns example_table example_config ''/home/u/ERA5_analysis''
         (year ?d) (month ?d) (vdate nov2020)) [''sst''] =
       ([request_analysis ''sst'' ''sfc'' ''SST'' ''2020-10-31/2020-12-01''
            ''00/06/12/18'' [-30, -80, -40, -70] ''/home/u/ERA5_analysis'' 2020 11], None)"
    by (simp add: example_step_sst v)
  from unknown_variable_raises[OF h1 h2 h3 h4, where post = "[''q'']" and j = 1
      and adv = "\<lambda>d. addmonths4date d 1" and adv' = "\<lambda>d. add_months d 1"]
  show ?thesis using h1 h2 by simp
qed

section \<open>An empty range of months: claim C8\<close>

lemma valid_config_dates:
  assumes "valid_config cfg"
  shows "date_new (year_start cfg) (month_start cfg) 1 =
           Inr \<lparr>year = year_start cfg, month = month_start cfg, day = 1\<rparr>"
    and "date_new (year_end cfg) (month_end cfg) 1 =
           Inr \<lparr>year = year_end cfg, month = month_end cfg, day = 1\<rparr>"
proof -
  have "1 \<le> days_in_month (year_start cfg) (month_start cfg)"
    "1 \<le> days_in_month (year_end cfg) (month_end cfg)"
    using assms days_in_month_bounds(1)[of "month_start cfg" "year_start cfg"]
      days_in_month_bounds(1)[of "month_end cfg" "year_end cfg"]
    by (simp_all add: valid_config_def)
  then show "date_new (year_start cfg) (month_start cfg) 1 =
           Inr \<lparr>year = year_start cfg, month = month_start cfg, day = 1\<rparr>"
    and "date_new (year_end cfg) (month_end cfg) 1 =
           Inr \<lparr>year = year_end cfg, month = month_end cfg, day = 1\<rparr>"
    using assms by (simp_all add: valid_config_def date_new_ok)
qed

lemma run_main_valid:
  assumes "valid_config cfg"
  shows "run_main retrieve uu cfg dir era5 =
     monthly_loop (\<lambda>d. addmonths4date d 1) (variable_step_main retrieve uu era5 cfg (dir @ ''/ERA5''))
       (n_overlap cfg) (variables cfg)
       (nat ((year_end cfg - year_start cfg) * 12 + (month_end cfg - month_start cfg) + 1))
       \<lparr>year = year_start cfg, month = month_start cfg, day = 1\<rparr>"
  by (simp add: run_main_def valid_config_dates[OF assms] len_monthly_dates_def)

lemma run_analysis_valid:
  assumes "valid_config cfg"
  shows "run_analysis retrieve cfg dir era5 =
     monthly_loop (\<lambda>d. add_months d 1) (variable_step_analysis retrieve era5 cfg (dir @ ''/ERA5_analysis''))
       (n_overlap cfg) (variables cfg)
       (nat ((year_end cfg - year_start cfg) * 12 + (month_end cfg - month_start cfg) + 1))
       \<lparr>year = year_start cfg, month = month_start cfg, day = 1\<rparr>"
  by (simp add: run_analysis_def valid_config_dates[OF assms] len_monthly_dates_def)

text \<open>
  Claim C8. When the end month is before the start month, the computed length of the
  monthly loop is at most 0 and both scripts run through without a window, a request
  or an exception.
\<close>

theorem end_before_start_is_empty:
  assumes "valid_config cfg"
    and "year_end cfg < year_start cfg \<or>
         (year_end cfg = year_start cfg \<and> month_end cfg < month_start cfg)"
  shows "len_monthly_dates \<lparr>year = year_start cfg, month = month_start cfg, day = 1\<rparr>
           \<lparr>year = year_end cfg, month = month_end cfg, day = 1\<rparr> \<le> 0 \<and>
         run_main retrieve uu cfg dir era5 = ([], None) \<and>
         run_analysis retrieve cfg dir era5 = ([], None)"
proof -
  have "(year_end cfg - year_start cfg) * 12 + (month_end cfg - month_start cfg) + 1 \<le> 0"
    using assms by (auto simp: valid_config_def)
  then show ?thesis
    by (simp add: run_main_valid[OF assms(1)] run_analysis_valid[OF assms(1)]
        len_monthly_dates_def)
qed

theorem end_before_start_is_empty_witness:
  "valid_config (example_config\<lparr>year_start := 2021, month_start := 1\<rparr>) \<and>
   (year_end (example_config\<lparr>year_start := 2021, month_start := 1\<rparr>)
      < year_start (example_config\<lparr>year_start := 2021, month_start := 1\<rparr>) \<or>
    (year_end (example_config\<lparr>year_start := 2021, month_start := 1\<rparr>)
      = year_start (example_config\<lparr>year_start := 2021, month_start := 1\<rparr>) \<and>
     month_end (example_config\<lparr>year_start := 2021, month_start := 1\<rparr>)
      < month_start (example_config\<lparr>year_start := 2021, month_start := 1\<rparr>))) \<and>
   run_main client_returns leave_unicode (example_config\<lparr>year_start := 2021, month_start := 1\<rparr>) ''/home/u'' example_table
     = ([], None) \<and>
   run_analysis client_returns (example_config\<lparr>year_start := 2021, month_start := 1\<rparr>) ''/home/u'' example_table
     = ([], None)"
proof -
  let ?c = "example_config\<lparr>year_start := 2021, month_start := 1\<rparr>"
  have h1: "valid_config ?c"
    by (simp add: valid_config_def example_config_def MINYEAR_def MAXYEAR_def)
  have h2: "year_end ?c < year_start ?c \<or>
      (year_end ?c = year_start ?c \<and> month_end ?c < month_start ?c)"
    by (simp add: example_config_def)
  from end_before_start_is_empty[OF h1 h2, of client_returns leave_unicode "''/home/u''"
      example_table]
  show ?thesis using h1 h2 by blast
qed

section \<open>The window of a month: claim C3\<close>







section \<open>The monthly loop, month by month\<close>

lemma date_new_Inr:
  assumes "date_new y m d = Inr R"
  shows "R = \<lparr>year = y, month = m, day = d\<rparr>" "MINYEAR \<le> y" "y \<le> MAXYEAR" "1 \<le> m" "m \<le> 12"
    "1 \<le> d" "d \<le> days_in_month y m"
  using assms by (simp_all add: date_new_def split: if_splits)

lemma addmonths4date_Inr:
  assumes "addmonths4date D n = Inr R"
  shows "month_index R = month_index D + n" "1 \<le> month R" "month R \<le> 12"
    "MINYEAR \<le> year R" "year R \<le> MAXYEAR"
proof -
  define k where "k = month D - 1 + n"
  have m: "1 \<le> k mod 12 + 1" "k mod 12 + 1 \<le> 12" by simp_all
  from assms have "date_new (year D + k div 12) (k mod 12 + 1)
      (min (day D) (days_in_month (year D + k div 12) (k mod 12 + 1))) = Inr R"
    unfolding addmonths4date_def Let_def k_def[symmetric] monthrange_days_in_month[OF m]
    by simp
  note r = date_new_Inr[OF this]
  have R: "year R = year D + k div 12" "month R = k mod 12 + 1" using r(1) by simp_all
  have e: "k = 12 * (k div 12) + k mod 12" by simp
  have "month D + n = k + 1" by (simp add: k_def)
  moreover have "(year D + k div 12) * 12 = year D * 12 + 12 * (k div 12)" by simp
  ultimately show "month_index R = month_index D + n"
    unfolding month_index_def R using e by linarith
  show "1 \<le> month R" "month R \<le> 12" "MINYEAR \<le> year R" "year R \<le> MAXYEAR"
    using r(2-5) R by simp_all
qed

lemma month_window_Inr:
  assumes "month_window d V = Inr w"
  shows "w_year w = year d" "w_month w = month d" "MINYEAR \<le> year d" "year d \<le> MAXYEAR"
    "1 \<le> month d" "month d \<le> 12"
proof -
  have m: "1 \<le> month d \<and> month d \<le> 12"
  proof (rule ccontr)
    assume "\<not> (1 \<le> month d \<and> month d \<le> 12)"
    then have "monthrange (year d) (month d) = Inl ValueError" by (simp add: monthrange_def)
    then have "month_window d V = Inl ValueError" by (simp add: month_window_def)
    with assms show False by simp
  qed
  then show "1 \<le> month d" "month d \<le> 12" by simp_all
  from assms obtain R where "date_new (year d) (month d) 1 = Inr R"
    unfolding month_window_def Let_def by (cases "date_new (year d) (month d) 1")
      (simp_all add: monthrange_days_in_month m)
  from date_new_Inr(2,3)[OF this] show "MINYEAR \<le> year d" "year d \<le> MAXYEAR" .
  from assms show "w_year w = year d" "w_month w = month d"
    unfolding month_window_def Let_def by (auto split: sum.splits)
qed

lemma variables_loop_prefix:
  assumes "variables_loop step vars = (rs, e)"
  shows "length rs \<le> length vars" "map Inr rs = map step (take (length rs) vars)"
    "e = None \<Longrightarrow> length rs = length vars"
  using assms
proof (induction vars arbitrary: rs e)
  case Nil
  { case 1 then show ?case by simp }
  { case 2 then show ?case by simp }
  { case 3 then show ?case by simp }
next
  case (Cons v vars)
  { case 1 then show ?case using Cons.IH(1) by (auto split: sum.splits prod.splits) }
  { case 2 then show ?case using Cons.IH(2) by (auto split: sum.splits prod.splits) }
  { case 3 then show ?case using Cons.IH(3) by (auto split: sum.splits prod.splits) }
qed


lemma monthly_loop_Suc_cases:
  obtains (window_fails) e where "month_window d V = Inl e"
      "monthly_loop adv step V vars (Suc j) d = ([], Some e)"
    | (variable_fails) w rs e where "month_window d V = Inr w"
      "variables_loop (step (year d) (month d) (vdate w)) vars = (rs, Some e)"
      "monthly_loop adv step V vars (Suc j) d = ([(w, rs)], Some e)"
    | (advance_fails) w rs e where "month_window d V = Inr w"
      "variables_loop (step (year d) (month d) (vdate w)) vars = (rs, None)"
      "adv d = Inl e"
      "monthly_loop adv step V vars (Suc j) d = ([(w, rs)], Some e)"
    | (goes_on) w rs d' its e where "month_window d V = Inr w"
      "variables_loop (step (year d) (month d) (vdate w)) vars = (rs, None)"
      "adv d = Inr d'"
      "monthly_loop adv step V vars j d' = (its, e)"
      "monthly_loop adv step V vars (Suc j) d = ((w, rs) # its, e)"
proof (cases "month_window d V")
  case (Inl e)
  then show ?thesis using window_fails by simp
next
  case (Inr w)
  obtain rs e where vl: "variables_loop (step (year d) (month d) (vdate w)) vars = (rs, e)"
    by (cases "variables_loop (step (year d) (month d) (vdate w)) vars")
  show ?thesis
  proof (cases e)
    case (Some err)
    then show ?thesis using Inr vl variable_fails by simp
  next
    case None
    show ?thesis
    proof (cases "adv d")
      case (Inl err)
      then show ?thesis using Inr vl None advance_fails by simp
    next
      case d': (Inr d')
      obtain its e' where "monthly_loop adv step V vars j d' = (its, e')"
        by (cases "monthly_loop adv step V vars j d'")
      then show ?thesis using Inr vl None d' goes_on by simp
    qed
  qed
qed

lemma monthly_loop_shape:
  assumes adv: "\<And>d d'. adv d = Inr d' \<Longrightarrow> month_index d' = month_index d + 1"
  shows "length (fst (monthly_loop adv step V vars j d)) \<le> j"
    and "map (\<lambda>it. w_year (fst it) * 12 + w_month (fst it)) (fst (monthly_loop adv step V vars j d)) =
           map (\<lambda>i. month_index d + int i) [0..<length (fst (monthly_loop adv step V vars j d))]"
    and "\<forall>it \<in> set (fst (monthly_loop adv step V vars j d)).
           MINYEAR \<le> w_year (fst it) \<and> w_year (fst it) \<le> MAXYEAR \<and>
           1 \<le> w_month (fst it) \<and> w_month (fst it) \<le> 12 \<and>
           length (snd it) \<le> length vars \<and>
           map Inr (snd it) =
             map (step (w_year (fst it)) (w_month (fst it)) (vdate (fst it)))
               (take (length (snd it)) vars)"
proof (induction j arbitrary: d)
  case 0
  { case 1 show ?case by simp }
  { case 2 show ?case by simp }
  { case 3 show ?case by simp }
next
  case (Suc j)
  have first: "MINYEAR \<le> w_year w \<and> w_year w \<le> MAXYEAR \<and> 1 \<le> w_month w \<and> w_month w \<le> 12 \<and>
        length rs \<le> length vars \<and>
        map Inr rs = map (step (w_year w) (w_month w) (vdate w)) (take (length rs) vars) \<and>
        w_year w * 12 + w_month w = month_index d"
    if "month_window d V = Inr w"
      "variables_loop (step (year d) (month d) (vdate w)) vars = (rs, e)" for w rs e d
    using month_window_Inr[OF that(1)] variables_loop_prefix(1,2)[OF that(2)]
    by (simp add: month_index_def)
  { case 1
    show ?case
    proof (cases rule: monthly_loop_Suc_cases[of d V adv step vars j])
      case (goes_on w rs d' its e)
      then show ?thesis using Suc.IH(1)[of d'] by simp
    qed simp_all
  }
  { case 2
    show ?case
    proof (cases rule: monthly_loop_Suc_cases[of d V adv step vars j])
      case (window_fails e)
      then show ?thesis by simp
    next
      case (variable_fails w rs e)
      then show ?thesis using first[OF variable_fails(1,2)] by simp
    next
      case (advance_fails w rs e)
      then show ?thesis using first[OF advance_fails(1,2)] by simp
    next
      case (goes_on w rs d' its e)
      have ix: "month_index d' = month_index d + 1"
        by (rule adv[OF goes_on(3)])
      have "map (\<lambda>it. w_year (fst it) * 12 + w_month (fst it)) its =
          map (\<lambda>i. month_index d + int (Suc i)) [0..<length its]"
        using Suc.IH(2)[of d'] goes_on(4) by (simp add: ix add.assoc)
      then show ?thesis
        using first[OF goes_on(1,2)] goes_on(5) by (simp add: map_upt_Suc del: upt_Suc)
    qed
  }
  { case 3
    show ?case
    proof (cases rule: monthly_loop_Suc_cases[of d V adv step vars j])
      case (window_fails e)
      then show ?thesis by simp
    next
      case (variable_fails w rs e)
      then show ?thesis using first[OF variable_fails(1,2)] by simp
    next
      case (advance_fails w rs e)
      then show ?thesis using first[OF advance_fails(1,2)] by simp
    next
      case (goes_on w rs d' its e)
      then show ?thesis
        using first[OF goes_on(1,2)] Suc.IH(3)[of d'] by simp
    qed
  }
qed







lemma add_months_fun: "(\<lambda>d. add_months d 1) = (\<lambda>d. addmonths4date d 1)"
  by (simp add: add_months_eq)


section \<open>One window per month: claim C2\<close>








section \<open>File names\<close>

lemma month_str_inj:
  assumes "1 \<le> m" "m \<le> 12" "1 \<le> m'" "m' \<le> 12" "zfill 2 (str m) = zfill 2 (str m')"
  shows "m = m'"
proof -
  have "nat m div 10 < 10" "nat m' div 10 < 10" using assms by simp_all
  moreover have "digit_char (nat m div 10) = digit_char (nat m' div 10)"
    "digit_char (nat m mod 10) = digit_char (nat m' mod 10)"
    using assms(5) by (simp_all add: month_str assms(1-4))
  ultimately have "nat m div 10 = nat m' div 10" "nat m mod 10 = nat m' mod 10"
    using digit_char_inj[of "nat m div 10" "nat m' div 10"]
      digit_char_inj[of "nat m mod 10" "nat m' mod 10"] by simp_all
  then have "nat m = nat m'" by (metis div_mult_mod_eq)
  then show ?thesis using assms by simp
qed

lemma fname_analysis_inj:
  assumes "0 \<le> y" "0 \<le> y'" "1 \<le> m" "m \<le> 12" "1 \<le> m'" "m' \<le> 12"
    and "fname_analysis a y m = fname_analysis a' y' m'"
  shows "a = a' \<and> y = y' \<and> m = m'"
proof -
  have lm: "length (zfill 2 (str m)) = 2" "length (zfill 2 (str m')) = 2"
    using assms by (simp_all add: month_str)
  let ?h = "a @ ''_Y'' @ str y" and ?h' = "a' @ ''_Y'' @ str y'"
  let ?t = "''M'' @ zfill 2 (str m) @ ''.nc''" and ?t' = "''M'' @ zfill 2 (str m') @ ''.nc''"
  have "?h @ ?t = ?h' @ ?t'"
    using assms(7) by (simp add: fname_analysis_def)
  moreover have "length ?t = length ?t'"
    using lm by simp
  ultimately have "?h = ?h' \<and> ?t = ?t'"
    using append_eq_append_conv[of ?h ?h' ?t ?t'] by blast
  then have e: "?h = ?h'" "?t = ?t'" by blast+
  from e(2) have "zfill 2 (str m) = zfill 2 (str m')" by simp
  then have m: "m = m'" by (rule month_str_inj[OF assms(3-6)])
  have "CHR ''Y'' \<notin> set ''0123456789''" by simp
  then have n: "CHR ''Y'' \<notin> set (str y)" "CHR ''Y'' \<notin> set (str y')"
    using digits_set[of "nat y"] digits_set[of "nat y'"] assms(1,2)
    by (auto simp: str_nonneg)
  have "(a @ ''_'') @ CHR ''Y'' # str y = (a' @ ''_'') @ CHR ''Y'' # str y'"
    using e(1) by simp
  from split_at_last[OF n this] have "a = a'" "str y = str y'" by simp_all
  then have "nat y = nat y'" using assms(1,2) by (intro digits_inj) (simp add: str_nonneg)
  then show ?thesis using \<open>a = a'\<close> m assms(1,2) by simp
qed

lemma fname_main_analysis: "fname_main uu v y m = fname_analysis (upper uu v) y m"
  by (simp add: fname_main_def fname_analysis_def)

lemma fname_analysis_shape:
  assumes "1000 \<le> y" "y \<le> 9999" "1 \<le> m" "m \<le> 12"
  shows "fname_analysis a y m =
     ''ERA5_ecmwf_'' @ a @ ''_Y'' @
     [digit_char (nat y div 1000), digit_char (nat y div 100 mod 10),
      digit_char (nat y div 10 mod 10), digit_char (nat y mod 10)] @
     ''M'' @ [digit_char (nat m div 10), digit_char (nat m mod 10)] @ ''.nc''"
proof -
  have "str y = [digit_char (nat y div 1000), digit_char (nat y div 100 mod 10),
      digit_char (nat y div 10 mod 10), digit_char (nat y mod 10)]"
    using assms(1,2) by (simp add: str_nonneg digits_four)
  then show ?thesis by (simp add: fname_analysis_def month_str[OF assms(3,4)])
qed

lemma distinct_concat_tagged:
  assumes uniq: "\<And>x i i'. P i x \<Longrightarrow> P i' x \<Longrightarrow> i = (i'::nat)"
    and "\<And>k. k < length bs \<Longrightarrow> distinct (bs ! k)"
    and "\<And>k x. k < length bs \<Longrightarrow> x \<in> set (bs ! k) \<Longrightarrow> P (n + k) x"
  shows "distinct (concat bs)"
  using assms(2,3)
proof (induction bs arbitrary: n)
  case Nil
  show ?case by simp
next
  case (Cons b bs)
  have b: "distinct b" using Cons.prems(1)[of 0] by simp
  have pb: "P n x" if "x \<in> set b" for x using Cons.prems(2)[of 0 x] that by simp
  have "distinct (concat bs)"
  proof (rule Cons.IH[of "Suc n"])
    show "distinct (bs ! k)" if "k < length bs" for k
      using Cons.prems(1)[of "Suc k"] that by simp
    show "P (Suc n + k) x" if "k < length bs" "x \<in> set (bs ! k)" for k x
      using Cons.prems(2)[of "Suc k" x] that by simp
  qed
  moreover have "set b \<inter> set (concat bs) = {}"
  proof (rule ccontr)
    assume "set b \<inter> set (concat bs) \<noteq> {}"
    then obtain x where x: "x \<in> set b" "x \<in> set (concat bs)" by blast
    then obtain c where "c \<in> set bs" "x \<in> set c" by auto
    then obtain k where k: "k < length bs" "bs ! k = c" by (auto simp: in_set_conv_nth)
    have "P (n + Suc k) x" using Cons.prems(2)[of "Suc k" x] k \<open>x \<in> set c\<close> by simp
    from uniq[OF pb[OF x(1)] this] show False by simp
  qed
  ultimately show ?case using b by simp
qed

lemma block_outputs:
  assumes step: "\<And>v r. v \<in> set vars \<Longrightarrow> step v = Inr r \<Longrightarrow>
      \<exists>a. nm v = Inr a \<and> rq_output r = dir @ ''/'' @ fname_analysis a y m"
    and dist: "distinct (map nm vars)"
    and y: "0 \<le> y" and m: "1 \<le> m" "m \<le> 12"
    and rs: "length rs \<le> length vars" "map Inr rs = map step (take (length rs) vars)"
  shows "distinct (map rq_output rs)"
    and "\<forall>x \<in> set (map rq_output rs). \<exists>a. x = dir @ ''/'' @ fname_analysis a y m"
proof -
  have at: "\<exists>a. nm (vars ! i) = Inr a \<and> rq_output (rs ! i) = dir @ ''/'' @ fname_analysis a y m"
    if "i < length rs" for i
  proof -
    have "map Inr rs ! i = map step (take (length rs) vars) ! i" by (simp only: rs(2))
    then have "step (vars ! i) = Inr (rs ! i)" using that rs(1) by simp
    moreover have "vars ! i \<in> set vars" using that rs(1) by simp
    ultimately show ?thesis by (rule step[rotated])
  qed
  show "distinct (map rq_output rs)"
    unfolding distinct_conv_nth
  proof (intro allI impI)
    fix i j assume i: "i < length (map rq_output rs)" and j: "j < length (map rq_output rs)"
      and ne: "i \<noteq> j"
    from at[of i] i obtain a where a: "nm (vars ! i) = Inr a"
      "rq_output (rs ! i) = dir @ ''/'' @ fname_analysis a y m" by auto
    from at[of j] j obtain b where b: "nm (vars ! j) = Inr b"
      "rq_output (rs ! j) = dir @ ''/'' @ fname_analysis b y m" by auto
    show "map rq_output rs ! i \<noteq> map rq_output rs ! j"
    proof
      assume "map rq_output rs ! i = map rq_output rs ! j"
      then have "fname_analysis a y m = fname_analysis b y m" using i j a(2) b(2) by simp
      from fname_analysis_inj[OF y y m m this] have "nm (vars ! i) = nm (vars ! j)"
        using a(1) b(1) by simp
      moreover have l: "i < length (map nm vars)" "j < length (map nm vars)"
        using i j rs(1) by simp_all
      ultimately have "map nm vars ! i = map nm vars ! j" by simp
      then have "i = j" using nth_eq_iff_index_eq[OF dist l] by blast
      then show False using ne by simp
    qed
  qed
  show "\<forall>x \<in> set (map rq_output rs). \<exists>a. x = dir @ ''/'' @ fname_analysis a y m"
  proof
    fix x assume "x \<in> set (map rq_output rs)"
    then obtain i where "i < length rs" "x = rq_output (rs ! i)"
      by (auto simp: in_set_conv_nth)
    then show "\<exists>a. x = dir @ ''/'' @ fname_analysis a y m" using at[of i] by auto
  qed
qed

section \<open>Output paths: claim C6\<close>

lemma monthly_loop_outputs_distinct:
  assumes step: "\<And>y m dt v r. step y m dt v = Inr r \<Longrightarrow>
      \<exists>a. nm v = Inr a \<and> rq_output r = dir @ ''/'' @ fname_analysis a y m"
    and dist: "distinct (map nm vars)"
  shows "distinct (map rq_output (concat (map snd
           (fst (monthly_loop (\<lambda>d. addmonths4date d 1) step V vars j d)))))"
proof -
  define its where "its = fst (monthly_loop (\<lambda>d. addmonths4date d 1) step V vars j d)"
  define P where "P k x \<longleftrightarrow> (\<exists>a y m. x = dir @ ''/'' @ fname_analysis a y m \<and>
      y * 12 + m = month_index d + int k \<and> 0 \<le> y \<and> 1 \<le> m \<and> m \<le> 12)" for k x
  have shape: "map (\<lambda>it. w_year (fst it) * 12 + w_month (fst it)) its =
      map (\<lambda>i. month_index d + int i) [0..<length its]"
    and each: "\<forall>it \<in> set its.
           MINYEAR \<le> w_year (fst it) \<and> w_year (fst it) \<le> MAXYEAR \<and>
           1 \<le> w_month (fst it) \<and> w_month (fst it) \<le> 12 \<and>
           length (snd it) \<le> length vars \<and>
           map Inr (snd it) =
             map (step (w_year (fst it)) (w_month (fst it)) (vdate (fst it)))
               (take (length (snd it)) vars)"
    unfolding its_def
    using monthly_loop_shape(2,3)[of "\<lambda>d. addmonths4date d 1" step V vars j d,
        OF addmonths4date_Inr(1)]
    by simp_all
  have ix: "w_year (fst (its ! k)) * 12 + w_month (fst (its ! k)) = month_index d + int k"
    if "k < length its" for k
  proof -
    have "map (\<lambda>it. w_year (fst it) * 12 + w_month (fst it)) its ! k =
        map (\<lambda>i. month_index d + int i) [0..<length its] ! k"
      by (simp only: shape)
    then show ?thesis using that by simp
  qed
  have uniq: "i = i'" if "P i x" "P i' x" for x i i'
  proof -
    from that(1) obtain a y m where 1: "x = dir @ ''/'' @ fname_analysis a y m"
      "y * 12 + m = month_index d + int i" "0 \<le> y" "1 \<le> m" "m \<le> 12"
      unfolding P_def by blast
    from that(2) obtain a' y' m' where 2: "x = dir @ ''/'' @ fname_analysis a' y' m'"
      "y' * 12 + m' = month_index d + int i'" "0 \<le> y'" "1 \<le> m'" "m' \<le> 12"
      unfolding P_def by blast
    have "fname_analysis a y m = fname_analysis a' y' m'" using 1(1) 2(1) by simp
    from fname_analysis_inj[OF 1(3) 2(3) 1(4,5) 2(4,5) this] show ?thesis
      using 1(2) 2(2) by simp
  qed
  let ?bs = "map (\<lambda>it. map rq_output (snd it)) its"
  have "distinct (concat ?bs)"
  proof (rule distinct_concat_tagged[where P = P and n = 0])
    show "i = i'" if "P i x" "P i' x" for x i i' using that by (rule uniq)
  next
    fix k assume k: "k < length ?bs"
    then have it: "its ! k \<in> set its" by simp
    let ?y = "w_year (fst (its ! k))" and ?m = "w_month (fst (its ! k))"
    from each it have e: "MINYEAR \<le> ?y \<and> ?y \<le> MAXYEAR \<and> 1 \<le> ?m \<and> ?m \<le> 12 \<and>
        length (snd (its ! k)) \<le> length vars \<and>
        map Inr (snd (its ! k)) =
          map (step ?y ?m (vdate (fst (its ! k)))) (take (length (snd (its ! k))) vars)"
      by (rule bspec)
    then have y: "0 \<le> ?y" by (simp add: MINYEAR_def)
    from e have m: "1 \<le> ?m" "?m \<le> 12"
      and rs: "length (snd (its ! k)) \<le> length vars"
        "map Inr (snd (its ! k)) =
          map (step ?y ?m (vdate (fst (its ! k)))) (take (length (snd (its ! k))) vars)"
      by blast+
    have st: "\<exists>a. nm v = Inr a \<and> rq_output r = dir @ ''/'' @ fname_analysis a ?y ?m"
      if "v \<in> set vars" "step ?y ?m (vdate (fst (its ! k))) v = Inr r" for v r
      using step[OF that(2)] .
    note b = block_outputs[where step = "step ?y ?m (vdate (fst (its ! k)))" and nm = nm
        and rs = "snd (its ! k)", OF st dist y m rs]
    show "distinct (?bs ! k)" using b(1) k by simp
    show "P (0 + k) x" if "x \<in> set (?bs ! k)" for x
    proof -
      from that k b(2) obtain a where "x = dir @ ''/'' @ fname_analysis a ?y ?m" by auto
      then show ?thesis unfolding P_def using ix[of k] k y m by auto
    qed
  qed
  moreover have "map rq_output (concat (map snd its)) = concat ?bs"
    by (simp add: map_concat comp_def)
  ultimately show ?thesis unfolding its_def by simp
qed

lemma step_main_output:
  assumes "variable_step_main retrieve uu era5 cfg dir y m dt v = Inr r"
  shows "\<exists>a. (Inr (upper uu v) :: error + string) = Inr a \<and>
           rq_output r = dir @ ''/'' @ fname_analysis a y m"
  using assms
  by (auto simp: variable_step_main_def request_main_output fname_main_analysis Let_def
      split: option.splits sum.splits)

lemma step_analysis_output:
  assumes "variable_step_analysis retrieve era5 cfg dir y m dt v = Inr r"
  shows "\<exists>a. lookup_vabbr era5 v = Inr a \<and> rq_output r = dir @ ''/'' @ fname_analysis a y m"
  using assms
  by (auto simp: variable_step_analysis_def lookup_vabbr_def request_analysis_output Let_def
      split: option.splits sum.splits)

lemma run_main_outputs_distinct:
  assumes "distinct (map (upper uu) (variables cfg))"
  shows "distinct (map rq_output (concat (map snd (fst (run_main retrieve uu cfg main_dir era5)))))"
proof -
  have "distinct (map (\<lambda>v. Inr (upper uu v) :: error + string) (variables cfg))"
    using assms by (simp add: distinct_map inj_on_def)
  from monthly_loop_outputs_distinct[of "variable_step_main retrieve uu era5 cfg (main_dir @ ''/ERA5'')"
      "\<lambda>v. Inr (upper uu v)" "main_dir @ ''/ERA5''", OF step_main_output this]
  show ?thesis
    by (simp add: run_main_def Let_def split: sum.splits)
qed

lemma run_analysis_outputs_distinct:
  assumes "distinct (map (lookup_vabbr era5) (variables cfg))"
  shows "distinct (map rq_output (concat (map snd (fst (run_analysis retrieve cfg main_dir era5)))))"
  using monthly_loop_outputs_distinct[of
      "variable_step_analysis retrieve era5 cfg (main_dir @ ''/ERA5_analysis'')"
      "lookup_vabbr era5" "main_dir @ ''/ERA5_analysis''", OF step_analysis_output assms]
  by (simp add: run_analysis_def Let_def add_months_fun split: sum.splits)

text \<open>
  Claim C6, with the conditions it needs. For a year from 1000 to 9999 and a month from
  1 to 12 the file name is \<^verbatim>\<open>ERA5_ecmwf_\<close>, the name part (the uppercased identifier in
  \<^verbatim>\<open>ERA5_request.py\<close>, the abbreviation in \<^verbatim>\<open>ERA5_analysis_request.py\<close>), \<^verbatim>\<open>_Y\<close>, the
  four digits of the year, \<^verbatim>\<open>M\<close>, the two digits of the month and \<^verbatim>\<open>.nc\<close>, and the
  output path is the directory, a slash and that name. In a run of \<^verbatim>\<open>ERA5_request.py\<close>
  whose uppercased identifiers are pairwise different no two requests get the same
  path, and in a run of \<^verbatim>\<open>ERA5_analysis_request.py\<close> whose abbreviation lookups give
  pairwise different results no two requests get the same path. Each script is taken
  with its own options, table, client and directory, and with the one condition that
  its own names need.
\<close>

theorem output_file_names:
  "(1000 \<le> y \<and> y \<le> 9999 \<and> 1 \<le> m \<and> m \<le> 12 \<longrightarrow>
      fname_main uu vname y m =
        ''ERA5_ecmwf_'' @ upper uu vname @ ''_Y'' @
        [digit_char (nat y div 1000), digit_char (nat y div 100 mod 10),
         digit_char (nat y div 10 mod 10), digit_char (nat y mod 10)] @
        ''M'' @ [digit_char (nat m div 10), digit_char (nat m mod 10)] @ ''.nc'' \<and>
      fname_analysis a y m =
        ''ERA5_ecmwf_'' @ a @ ''_Y'' @
        [digit_char (nat y div 1000), digit_char (nat y div 100 mod 10),
         digit_char (nat y div 10 mod 10), digit_char (nat y mod 10)] @
        ''M'' @ [digit_char (nat m div 10), digit_char (nat m mod 10)] @ ''.nc'') \<and>
   rq_output (request_main uu vname vlong vlevt dt hours varea dir y m) =
     dir @ ''/'' @ fname_main uu vname y m \<and>
   rq_output (request_analysis vlong vlevt a dt hours varea dir y m) =
     dir @ ''/'' @ fname_analysis a y m \<and>
   (distinct (map (upper uu) (variables cfg)) \<longrightarrow>
      distinct (map rq_output (concat (map snd
        (fst (run_main retrieve uu cfg main_dir era5)))))) \<and>
   (distinct (map (lookup_vabbr era5') (variables cfg')) \<longrightarrow>
      distinct (map rq_output (concat (map snd
        (fst (run_analysis retrieve' cfg' main_dir' era5'))))))"
proof (intro conjI impI)
  assume r: "1000 \<le> y \<and> y \<le> 9999 \<and> 1 \<le> m \<and> m \<le> 12"
  then have h: "1000 \<le> y" "y \<le> 9999" "1 \<le> m" "m \<le> 12" by simp_all
  show "fname_main uu vname y m =
      ''ERA5_ecmwf_'' @ upper uu vname @ ''_Y'' @
      [digit_char (nat y div 1000), digit_char (nat y div 100 mod 10),
       digit_char (nat y div 10 mod 10), digit_char (nat y mod 10)] @
      ''M'' @ [digit_char (nat m div 10), digit_char (nat m mod 10)] @ ''.nc''"
    unfolding fname_main_analysis by (rule fname_analysis_shape[OF h])
  show "fname_analysis a y m =
      ''ERA5_ecmwf_'' @ a @ ''_Y'' @
      [digit_char (nat y div 1000), digit_char (nat y div 100 mod 10),
       digit_char (nat y div 10 mod 10), digit_char (nat y mod 10)] @
      ''M'' @ [digit_char (nat m div 10), digit_char (nat m mod 10)] @ ''.nc''"
    by (rule fname_analysis_shape[OF h])
next
  show "rq_output (request_main uu vname vlong vlevt dt hours varea dir y m) =
      dir @ ''/'' @ fname_main uu vname y m"
    by (rule request_main_output)
  show "rq_output (request_analysis vlong vlevt a dt hours varea dir y m) =
      dir @ ''/'' @ fname_analysis a y m"
    by (rule request_analysis_output)
next
  assume "distinct (map (upper uu) (variables cfg))"
  then show "distinct (map rq_output (concat (map snd
      (fst (run_main retrieve uu cfg main_dir era5)))))"
    by (rule run_main_outputs_distinct)
next
  assume "distinct (map (lookup_vabbr era5') (variables cfg'))"
  then show "distinct (map rq_output (concat (map snd
      (fst (run_analysis retrieve' cfg' main_dir' era5')))))"
    by (rule run_analysis_outputs_distinct)
qed

lemma upper_examples:
  "upper uu ''sst'' = ''SST''" "upper uu ''q'' = ''Q''" "upper uu ''SST'' = ''SST''"
  by (simp_all add: upper_def upper_char_def is_ascii_def)

theorem output_file_names_witness:
  "(1000::int) \<le> 2020 \<and> (2020::int) \<le> 9999 \<and> (1::int) \<le> 11 \<and> (11::int) \<le> 12 \<and>
   distinct (map (upper leave_unicode) (variables example_config)) \<and>
   distinct (map (lookup_vabbr example_table) (variables example_config)) \<and>
   fname_main leave_unicode ''sst'' 2020 11 = ''ERA5_ecmwf_SST_Y2020M11.nc'' \<and>
   fname_analysis ''Q'' 2020 11 = ''ERA5_ecmwf_Q_Y2020M11.nc'' \<and>
   distinct (map rq_output (concat (map snd
     (fst (run_main client_returns leave_unicode example_config ''/home/u'' example_table))))) \<and>
   distinct (map rq_output (concat (map snd
     (fst (run_analysis client_returns example_config ''/home/u'' example_table)))))"
proof -
  have v: "variables example_config = [''sst'', ''q'']" by (simp add: example_config_def)
  have d1: "distinct (map (upper leave_unicode) (variables example_config))"
    by (simp add: v upper_examples)
  have "lookup_vabbr example_table ''sst'' = Inr ''SST''"
    "lookup_vabbr example_table ''q'' = Inr ''Q''"
    by (simp_all add: lookup_vabbr_def example_table_def getitem_def)
  then have d2: "distinct (map (lookup_vabbr example_table) (variables example_config))"
    by (simp add: v)
  have n: "nat 2020 div 1000 = 2" "nat 2020 div 100 mod 10 = 0" "nat 2020 div 10 mod 10 = 2"
    "nat 2020 mod 10 = 0" "nat 11 div 10 = 1" "nat 11 mod 10 = 1"
    by simp_all
  have dc: "digit_char 0 = CHR ''0''" "digit_char 1 = CHR ''1''" "digit_char 2 = CHR ''2''"
    by (simp_all add: digit_char_def)
  note t = output_file_names[where y = 2020 and m = 11 and uu = leave_unicode
      and vname = "''sst''" and a = "''Q''" and cfg = example_config
      and cfg' = example_config and retrieve = client_returns
      and retrieve' = client_returns and main_dir = "''/home/u''"
      and main_dir' = "''/home/u''" and era5' = example_table,
      of _ _ _ _ _ _ example_table, unfolded n dc]
  from t have f: "fname_main leave_unicode ''sst'' 2020 11 = ''ERA5_ecmwf_SST_Y2020M11.nc''"
    "fname_analysis ''Q'' 2020 11 = ''ERA5_ecmwf_Q_Y2020M11.nc''"
    by (simp_all add: upper_examples)
  from t d1 have r1: "distinct (map rq_output (concat (map snd
     (fst (run_main client_returns leave_unicode example_config ''/home/u'' example_table)))))"
    by blast
  from t d2 have r2: "distinct (map rq_output (concat (map snd
     (fst (run_analysis client_returns example_config ''/home/u'' example_table)))))"
    by blast
  show ?thesis using d1 d2 f r1 r2 by simp
qed

lemma advance_nov2020:
  "addmonths4date \<lparr>year = 2020, month = 11, day = 1\<rparr> 1 = Inr \<lparr>year = 2020, month = 12, day = 1\<rparr>"
  "add_months \<lparr>year = 2020, month = 11, day = 1\<rparr> 1 = Inr \<lparr>year = 2020, month = 12, day = 1\<rparr>"
proof -
  have "monthrange 2020 12 = Inr 31" by (simp add: monthrange_def mdays_def)
  moreover have "date_new 2020 12 1 = Inr \<lparr>year = 2020, month = 12, day = 1\<rparr>"
    by (rule date_new_ok)
      (simp_all add: MINYEAR_def MAXYEAR_def days_in_month_def DAYS_IN_MONTH_def)
  ultimately show
    "addmonths4date \<lparr>year = 2020, month = 11, day = 1\<rparr> 1 = Inr \<lparr>year = 2020, month = 12, day = 1\<rparr>"
    "add_months \<lparr>year = 2020, month = 11, day = 1\<rparr> 1 = Inr \<lparr>year = 2020, month = 12, day = 1\<rparr>"
    by (simp_all add: addmonths4date_def add_months_def)
qed

lemma clash_steps:
  "variable_step_main client_returns leave_unicode clash_table clash_config dir y m dt ''sst'' =
     Inr (request_main leave_unicode ''sst'' ''sea_surface_temperature'' ''sfc'' dt ''00/06/12/18''
            [-30, -80, -40, -70] dir y m)"
  "variable_step_main client_returns leave_unicode clash_table clash_config dir y m dt ''SST'' =
     Inr (request_main leave_unicode ''SST'' ''sea_surface_temperature'' ''sfc'' dt ''00/06/12/18''
            [-30, -80, -40, -70] dir y m)"
  "variable_step_analysis client_returns clash_table clash_config dir y m dt ''sst'' =
     Inr (request_analysis ''sst'' ''sfc'' ''SST'' dt ''00/06/12/18''
            [-30, -80, -40, -70] dir y m)"
  "variable_step_analysis client_returns clash_table clash_config dir y m dt ''SST'' =
     Inr (request_analysis ''SST'' ''sfc'' ''SST'' dt ''00/06/12/18''
            [-30, -80, -40, -70] dir y m)"
  by (simp_all add: variable_step_main_def variable_step_analysis_def clash_table_def
      clash_config_def getitem_def client_returns_def)

lemma fname_examples:
  "fname_analysis ''SST'' 2020 11 = ''ERA5_ecmwf_SST_Y2020M11.nc''"
  "fname_analysis ''SST'' 999 1 = ''ERA5_ecmwf_SST_Y999M01.nc''"
  by code_simp+

text \<open>
  Without the conditions: the identifiers \<^verbatim>\<open>sst\<close> and \<^verbatim>\<open>SST\<close> are different, and the
  two requests of the one month go to the same path, in either script; and the year
  999, a year of the calendar, is written with three digits.
\<close>

theorem output_paths_clash:
  "distinct (variables clash_config) \<and>
   map rq_output (concat (map snd (fst (run_main client_returns leave_unicode clash_config ''/home/u'' clash_table)))) =
     [''/home/u/ERA5/ERA5_ecmwf_SST_Y2020M11.nc'', ''/home/u/ERA5/ERA5_ecmwf_SST_Y2020M11.nc''] \<and>
   map rq_output (concat (map snd (fst (run_analysis client_returns clash_config ''/home/u'' clash_table)))) =
     [''/home/u/ERA5_analysis/ERA5_ecmwf_SST_Y2020M11.nc'',
      ''/home/u/ERA5_analysis/ERA5_ecmwf_SST_Y2020M11.nc''] \<and>
   \<not> distinct (map rq_output (concat (map snd
         (fst (run_main client_returns leave_unicode clash_config ''/home/u'' clash_table))))) \<and>
   \<not> distinct (map rq_output (concat (map snd
         (fst (run_analysis client_returns clash_config ''/home/u'' clash_table))))) \<and>
   MINYEAR \<le> 999 \<and> 999 \<le> MAXYEAR \<and>
   fname_main leave_unicode ''sst'' 999 1 = ''ERA5_ecmwf_SST_Y999M01.nc''"
proof -
  have c: "year_start clash_config = 2020" "month_start clash_config = 11"
    "year_end clash_config = 2020" "month_end clash_config = 11"
    "n_overlap clash_config = 1" "variables clash_config = [''sst'', ''SST'']"
    by (simp_all add: clash_config_def)
  have v: "valid_config clash_config"
    by (simp add: valid_config_def c MINYEAR_def MAXYEAR_def)
  have n: "nat ((2020 - 2020) * 12 + (11 - 11) + 1) = Suc 0" by simp
  have "map rq_output (concat (map snd (fst (run_main client_returns leave_unicode clash_config ''/home/u'' clash_table)))) =
     [''/home/u/ERA5/ERA5_ecmwf_SST_Y2020M11.nc'', ''/home/u/ERA5/ERA5_ecmwf_SST_Y2020M11.nc'']"
    unfolding run_main_valid[OF v] c n
    by (simp add: month_window_nov2020 clash_steps advance_nov2020 request_main_output
        fname_main_analysis upper_examples fname_examples)
  moreover have "map rq_output (concat (map snd
        (fst (run_analysis client_returns clash_config ''/home/u'' clash_table)))) =
     [''/home/u/ERA5_analysis/ERA5_ecmwf_SST_Y2020M11.nc'',
      ''/home/u/ERA5_analysis/ERA5_ecmwf_SST_Y2020M11.nc'']"
    unfolding run_analysis_valid[OF v] c n
    by (simp add: month_window_nov2020 clash_steps advance_nov2020 request_analysis_output
        fname_examples)
  ultimately show ?thesis
    by (simp add: c MINYEAR_def MAXYEAR_def fname_main_analysis upper_examples fname_examples)
qed

end
